theory Spec2Isabelle
  imports Complex_Main "HOL-Library.Word"
begin

section \<open>The GMRES solver configuration (class gmres_tag)\<close>

text \<open>
  The tag stores the tolerance, the iteration budget and the Krylov dimension given to
  the constructor, and two mutable run outputs.  The constructor initialises
  \<open>iters_taken\<close> with 0 and leaves \<open>last_error\<close> uninitialised, so the
  latter is a parameter of the model of the constructor.  \<open>unsigned int\<close> is a
  32-bit word; the scalar type is idealised as \<open>real\<close>.
\<close>

record gmres_tag =
  tol :: real
  iterations :: "32 word"
  krylov_dim :: "32 word"
  iters_taken :: "32 word"
  last_error :: real

definition mk_gmres_tag :: "real \<Rightarrow> 32 word \<Rightarrow> 32 word \<Rightarrow> real \<Rightarrow> gmres_tag" where
  "mk_gmres_tag t max_iterations kd uninit =
     \<lparr>tol = t, iterations = max_iterations, krylov_dim = kd, iters_taken = 0,
      last_error = uninit\<rparr>"

text \<open>
  \<open>max_restarts\<close>: unsigned division, then one less when the division is exact and
  the quotient is positive.  Division by a zero \<open>krylov_dim\<close> is undefined in the
  source; the model returns \<open>None\<close> there.
\<close>

definition max_restarts :: "gmres_tag \<Rightarrow> 32 word option" where
  "max_restarts cfg =
     (if krylov_dim cfg = 0 then None
      else let ret = iterations cfg div krylov_dim cfg
           in if ret > 0 \<and> ret * krylov_dim cfg = iterations cfg then Some (ret - 1)
              else Some ret)"

section \<open>Vector primitives\<close>

text \<open>
  Modelled from the spec: the vector, matrix and preconditioner capabilities
  (\<open>norm_2\<close>, \<open>inner_prod\<close>, \<open>prod\<close>, \<open>clear\<close>, \<open>resize\<close>, the
  compound assignments) live in headers that are not part of the sources at hand.  A
  vector is the list of its entries, the linear operator and the preconditioner are
  functions on vectors, \<open>clear\<close> fills with zeros and keeps the size.
\<close>

type_synonym vec = "real list"

definition inner_prod :: "vec \<Rightarrow> vec \<Rightarrow> real" where
  "inner_prod u v = sum_list (map2 (*) u v)"

definition norm_2 :: "vec \<Rightarrow> real" where
  "norm_2 v = sqrt (inner_prod v v)"

definition vsub :: "vec \<Rightarrow> vec \<Rightarrow> vec" where
  "vsub u v = map2 (-) u v"

definition vadd :: "vec \<Rightarrow> vec \<Rightarrow> vec" where
  "vadd u v = map2 (+) u v"

definition vscale :: "vec \<Rightarrow> real \<Rightarrow> vec" where
  "vscale v c = map (\<lambda>x. x * c) v"

definition zeros :: "nat \<Rightarrow> vec" where
  "zeros n = replicate n 0"

definition clear :: "vec \<Rightarrow> vec" where
  "clear v = zeros (length v)"

definition no_precond :: "vec \<Rightarrow> vec" where
  "no_precond v = v"

text \<open>
  What the solver cannot compute is a value of the model: an index outside a container
  (\<open>OutOfRange\<close>), the unsigned division by a zero \<open>krylov_dim\<close> (\<open>DivByZero\<close>),
  and a scalar operation whose floating-point result is an infinity or a NaN
  (\<open>NonFinite\<close>: a division by zero, a square root of a negative number, an arc cosine
  outside \<open>[-1, 1]\<close>).
\<close>

datatype error = OutOfRange | DivByZero | NonFinite

section \<open>The working set of solve\<close>

text \<open>
  The local variables of \<open>solve\<close> that change during a run, together with the tag,
  whose run outputs \<open>solve\<close> writes.
\<close>

record gmres_state =
  result :: vec
  res :: vec
  v_k_tilde :: vec
  R :: "real list list"
  projection_rhs :: "real list"
  U :: "vec list"
  rho_0 :: real
  rho :: real
  tag :: gmres_tag

text \<open>The Householder reflection \<open>v -= u * (inner_prod(u, v) * 2)\<close>.\<close>

definition reflect :: "vec \<Rightarrow> vec \<Rightarrow> vec" where
  "reflect u v = vsub v (vscale u (inner_prod u v * 2))"

text \<open>\<open>for (int i = k-1; i > -1; --i) v -= U[i] * (inner_prod(U[i], v) * 2)\<close>\<close>

fun reflect_down :: "vec list \<Rightarrow> nat \<Rightarrow> vec \<Rightarrow> vec" where
  "reflect_down Us 0 v = v"
| "reflect_down Us (Suc i) v = reflect_down Us i (reflect (Us ! i) v)"

text \<open>\<open>for (unsigned int i = 0; i < k; ++i) v -= U[i] * (inner_prod(U[i], v) * 2)\<close>\<close>

definition reflect_up :: "vec list \<Rightarrow> nat \<Rightarrow> vec \<Rightarrow> vec" where
  "reflect_up Us k v = fold (\<lambda>i w. reflect (Us ! i) w) [0..<k] v"

section \<open>The inner loop: building the Householder basis\<close>

text \<open>
  The candidate vector of step \<open>k\<close>: \<open>prod(matrix, res)\<close>, preconditioned, for
  \<open>k = 0\<close>; otherwise the unit vector \<open>k - 1\<close> taken through the built
  reflections downwards, the operator, the preconditioner, and the reflections upwards.
\<close>

definition candidate :: "(vec \<Rightarrow> vec) \<Rightarrow> (vec \<Rightarrow> vec) \<Rightarrow> nat \<Rightarrow> gmres_state \<Rightarrow> error + vec" where
  "candidate A P k s =
     (if k = 0 then Inr (P (A (res s)))
      else if k - 1 < length (v_k_tilde s) \<and> k \<le> length (U s)
      then Inr (reflect_up (U s) k
                  (P (A (reflect_down (U s) k ((clear (v_k_tilde s))[k - 1 := 1])))))
      else Inl OutOfRange)"

text \<open>
  \<open>U[k]\<close> before normalisation: zero-filled with \<open>problem_size\<close> entries, the first
  \<open>k\<close> entries copied from the candidate, and
  \<open>U[k][k] = sqrt(inner_prod(v, v) - inner_prod(U[k], U[k]))\<close>.
\<close>

definition householder_column :: "nat \<Rightarrow> nat \<Rightarrow> vec \<Rightarrow> error + vec" where
  "householder_column n k v =
     (if k \<le> length v \<and> k < n then
        let u = take k v @ zeros (n - k);
            d = inner_prod v v - inner_prod u u
        in if d < 0 then Inl NonFinite else Inr (u[k := sqrt d])
      else Inl OutOfRange)"

text \<open>
  After the breakdown test: the first \<open>k + 1\<close> entries of \<open>U[k]\<close> go to \<open>R[k]\<close>,
  \<open>U[k] -= v_k_tilde\<close>, \<open>U[k] *= -1 / norm_2(U[k])\<close>, and the reflection is applied
  to \<open>res\<close>.
\<close>

definition make_reflector :: "nat \<Rightarrow> vec \<Rightarrow> vec \<Rightarrow> gmres_state \<Rightarrow> error + gmres_state" where
  "make_reflector k u v s =
     (if k < length (R s) \<and> k < length (R s ! k) \<and> k < length u \<and> k < length (U s) then
        let rk = take (k + 1) u @ drop (k + 1) (R s ! k);
            u2 = vsub u v;
            nrm = norm_2 u2
        in if nrm = 0 then Inl NonFinite
           else let u3 = vscale u2 (- 1 / nrm)
                in Inr (s\<lparr>R := (R s)[k := rk], U := (U s)[k := u3],
                          res := reflect u3 (res s)\<rparr>)
      else Inl OutOfRange)"

text \<open>
  \<open>if (res[k] > rho) res[k] = rho; if (res[k] < -rho) res[k] = -rho;\<close>
\<close>

definition clamp_res :: "real \<Rightarrow> real \<Rightarrow> real" where
  "clamp_res r x = (let x1 = (if x > r then r else x) in if x1 < - r then - r else x1)"

text \<open>
  \<open>projection_rhs[k] = res[k]; rho *= sin(acos(projection_rhs[k] / rho))\<close>
\<close>

definition update_rho :: "nat \<Rightarrow> gmres_state \<Rightarrow> error + gmres_state" where
  "update_rho k s =
     (if k < length (res s) \<and> k < length (projection_rhs s) then
        let x = clamp_res (rho s) (res s ! k)
        in if rho s = 0 then Inl NonFinite
           else if x / rho s < - 1 \<or> 1 < x / rho s then Inl NonFinite
           else Inr (s\<lparr>res := (res s)[k := x],
                       projection_rhs := (projection_rhs s)[k := x],
                       rho := rho s * sin (arccos (x / rho s))\<rparr>)
      else Inl OutOfRange)"

datatype step_exit = Breakdown | Converged | Next

text \<open>
  One pass through the body of \<open>for (k = 0; k < krylov_dim; ++k)\<close>.  \<open>eps\<close> is
  \<open>numeric_limits::epsilon()\<close>, \<open>n\<close> is \<open>problem_size\<close>.
\<close>

definition krylov_step ::
  "(vec \<Rightarrow> vec) \<Rightarrow> (vec \<Rightarrow> vec) \<Rightarrow> real \<Rightarrow> nat \<Rightarrow> real \<Rightarrow> nat \<Rightarrow> gmres_state
     \<Rightarrow> error + (step_exit \<times> gmres_state)" where
  "krylov_step A P eps n norm_rhs k s0 =
     (let s = s0\<lparr>tag := (tag s0)\<lparr>iters_taken := iters_taken (tag s0) + 1\<rparr>\<rparr>
      in case candidate A P k s of
           Inl e \<Rightarrow> Inl e
         | Inr v \<Rightarrow>
             if \<not> k < length (U s) then Inl OutOfRange
             else (case householder_column n k v of
                 Inl e \<Rightarrow> Inl e
               | Inr u \<Rightarrow>
                   let s1 = s\<lparr>v_k_tilde := v, U := (U s)[k := u]\<rparr>
                   in if \<bar>u ! k\<bar> < 10 * eps then Inr (Breakdown, s1)
                      else (case make_reflector k u v s1 of
                          Inl e \<Rightarrow> Inl e
                        | Inr s2 \<Rightarrow>
                            (case update_rho k s2 of
                               Inl e \<Rightarrow> Inl e
                             | Inr s3 \<Rightarrow>
                                 if norm_rhs = 0 then Inl NonFinite
                                 else if \<bar>rho s3 * rho_0 s3 / norm_rhs\<bar> < tol (tag s3)
                                 then Inr (Converged,
                                        s3\<lparr>tag := (tag s3)\<lparr>last_error :=
                                              \<bar>rho s3 * rho_0 s3 / norm_rhs\<bar>\<rparr>\<rparr>)
                                 else Inr (Next, s3)))))"

text \<open>
  The loop itself; it returns the value of \<open>k\<close> at its exit: unchanged at a breakdown,
  one more at convergence, \<open>krylov_dim\<close> when the loop runs out.
\<close>

function krylov_loop ::
  "(vec \<Rightarrow> vec) \<Rightarrow> (vec \<Rightarrow> vec) \<Rightarrow> real \<Rightarrow> nat \<Rightarrow> real \<Rightarrow> nat \<Rightarrow> nat \<Rightarrow> gmres_state
     \<Rightarrow> error + (nat \<times> gmres_state)" where
  "krylov_loop A P eps n norm_rhs kd k s =
     (if k < kd then
        (case krylov_step A P eps n norm_rhs k s of
           Inl e \<Rightarrow> Inl e
         | Inr (Breakdown, s') \<Rightarrow> Inr (k, s')
         | Inr (Converged, s') \<Rightarrow> Inr (k + 1, s')
         | Inr (Next, s') \<Rightarrow> krylov_loop A P eps n norm_rhs kd (k + 1) s')
      else Inr (k, s))"
  by pat_completeness auto
termination
  by (relation "measure (\<lambda>(A, P, eps, n, norm_rhs, kd, k, s). kd - k)") auto

declare krylov_loop.simps [simp del]

section \<open>Back-substitution and reconstruction\<close>

text \<open>
  \<open>for (j = i+1; j < k; ++j) projection_rhs[i] -= R[j][i] * projection_rhs[j]\<close>
\<close>

definition back_row :: "real list list \<Rightarrow> nat \<Rightarrow> nat \<Rightarrow> real list \<Rightarrow> real list" where
  "back_row Rm k i p = fold (\<lambda>j q. q[i := q ! i - Rm ! j ! i * q ! j]) [i + 1..<k] p"

text \<open>
  The indices row \<open>i\<close> of the back-substitution touches: \<open>projection_rhs[i..k-1]\<close>,
  \<open>R[i..k-1][i]\<close>.
\<close>

definition row_in_range :: "real list list \<Rightarrow> nat \<Rightarrow> nat \<Rightarrow> real list \<Rightarrow> bool" where
  "row_in_range Rm k i p =
     (k \<le> length p \<and> k \<le> length Rm \<and> list_all (\<lambda>j. i < length (Rm ! j)) [i..<k])"

text \<open>
  \<open>for (int i = k-1; i > -1; --i) { ...; projection_rhs[i] /= R[i][i]; }\<close>; the third
  argument counts the rows still to do, so the loop is \<open>back_substitution R k k\<close>.
\<close>

fun back_substitution :: "real list list \<Rightarrow> nat \<Rightarrow> nat \<Rightarrow> real list \<Rightarrow> error + real list" where
  "back_substitution Rm k 0 p = Inr p"
| "back_substitution Rm k (Suc i) p =
     (if \<not> row_in_range Rm k i p then Inl OutOfRange
      else let q = back_row Rm k i p
           in if Rm ! i ! i = 0 then Inl NonFinite
              else back_substitution Rm k i (q[i := q ! i / Rm ! i ! i]))"

text \<open>
  \<open>res *= projection_rhs[0]\<close>, the coefficients \<open>1..k-1\<close> added to \<open>res[0..k-2]\<close>,
  the reflections applied downwards, \<open>res *= rho_0; result += res\<close>.
\<close>

definition reconstruct :: "nat \<Rightarrow> gmres_state \<Rightarrow> error + gmres_state" where
  "reconstruct k s =
     (if \<not> 0 < length (projection_rhs s) then Inl OutOfRange
      else let r1 = vscale (res s) (projection_rhs s ! 0)
           in if \<not> (k - 1 \<le> length r1 \<and> (k \<le> 1 \<or> k \<le> length (projection_rhs s))
                     \<and> k \<le> length (U s))
              then Inl OutOfRange
              else let r2 = (if k > 0
                             then fold (\<lambda>i r. r[i := r ! i + projection_rhs s ! (i + 1)])
                                    [0..<k - 1] r1
                             else r1);
                       r3 = reflect_down (U s) k r2;
                       r4 = vscale r3 (rho_0 s)
                   in Inr (s\<lparr>res := r4, result := vadd (result s) r4\<rparr>))"

section \<open>The restart loop and solve\<close>

datatype cycle_exit = ReturnAtStart | ReturnAtEnd | NextRestart

text \<open>The residual \<open>res = rhs; res -= prod(matrix, result); precond.apply(res)\<close>.\<close>

definition residual :: "(vec \<Rightarrow> vec) \<Rightarrow> (vec \<Rightarrow> vec) \<Rightarrow> vec \<Rightarrow> gmres_state \<Rightarrow> vec" where
  "residual A P rhs s = P (vsub rhs (A (result s)))"

text \<open>
  The working set at the entry of the inner loop: \<open>res /= rho_0\<close>, \<open>rho = 1\<close>, and
  for \<open>k < krylov_dim\<close> the rows \<open>R[k]\<close> and the vectors \<open>U[k]\<close> zero-filled and
  resized.
\<close>

definition cycle_init ::
  "(vec \<Rightarrow> vec) \<Rightarrow> (vec \<Rightarrow> vec) \<Rightarrow> nat \<Rightarrow> nat \<Rightarrow> vec \<Rightarrow> gmres_state \<Rightarrow> gmres_state" where
  "cycle_init A P n kd rhs s =
     (let r0 = residual A P rhs s;
          rho0 = norm_2 r0
      in s\<lparr>res := map (\<lambda>x. x / rho0) r0, rho_0 := rho0, rho := 1,
           R := replicate kd (zeros kd) @ drop kd (R s),
           U := replicate kd (zeros n) @ drop kd (U s)\<rparr>)"

text \<open>
  What follows the inner loop, with the value \<open>k\<close> it ended on: back-substitution,
  reconstruction, and the test at the end of the pass.  It is reached with
  \<open>norm_rhs \<noteq> 0\<close> only.
\<close>

definition finish_cycle :: "real \<Rightarrow> nat \<Rightarrow> gmres_state \<Rightarrow> error + (cycle_exit \<times> gmres_state)" where
  "finish_cycle norm_rhs k s2 =
     (case back_substitution (R s2) k k (projection_rhs s2) of
        Inl e \<Rightarrow> Inl e
      | Inr p \<Rightarrow>
          (case reconstruct k (s2\<lparr>projection_rhs := p\<rparr>) of
             Inl e \<Rightarrow> Inl e
           | Inr s3 \<Rightarrow>
               if \<bar>rho s3 * rho_0 s3 / norm_rhs\<bar> < tol (tag s3)
               then Inr (ReturnAtEnd,
                      s3\<lparr>tag := (tag s3)\<lparr>last_error := \<bar>rho s3 * rho_0 s3 / norm_rhs\<bar>\<rparr>\<rparr>)
               else Inr (NextRestart,
                      s3\<lparr>tag := (tag s3)\<lparr>last_error := \<bar>rho s3 * rho_0 s3\<bar>\<rparr>\<rparr>)))"

text \<open>
  One pass through the body of \<open>for (it = 0; it <= tag.max_restarts(); ++it)\<close>.  The
  exit says which of the two \<open>return result\<close> statements of the body was taken, if any.
  \<open>kd\<close> is the local \<open>krylov_dim\<close>.  \<open>solve\<close> enters the loop with
  \<open>norm_rhs \<noteq> 0\<close>; with \<open>norm_rhs = 0\<close> the quotient \<open>rho_0 / norm_rhs\<close> that
  the pass records would not be finite.
\<close>

definition restart_cycle ::
  "(vec \<Rightarrow> vec) \<Rightarrow> (vec \<Rightarrow> vec) \<Rightarrow> real \<Rightarrow> nat \<Rightarrow> nat \<Rightarrow> vec \<Rightarrow> real \<Rightarrow> gmres_state
     \<Rightarrow> error + (cycle_exit \<times> gmres_state)" where
  "restart_cycle A P eps n kd rhs norm_rhs s =
     (let r0 = residual A P rhs s;
          rho0 = norm_2 r0
      in if norm_rhs = 0 then Inl NonFinite
         else if rho0 / norm_rhs < tol (tag s)
         then Inr (ReturnAtStart,
                s\<lparr>res := r0, rho_0 := rho0, rho := 1,
                  tag := (tag s)\<lparr>last_error := rho0 / norm_rhs\<rparr>\<rparr>)
         else if rho0 = 0 then Inl NonFinite
         else if \<not> (kd \<le> length (R s) \<and> kd \<le> length (U s)) then Inl OutOfRange
         else (case krylov_loop A P eps n norm_rhs kd 0 (cycle_init A P n kd rhs s) of
                 Inl e \<Rightarrow> Inl e
               | Inr (k, s2) \<Rightarrow> finish_cycle norm_rhs k s2))"

datatype solve_exit = ZeroRhs | ConvergedAtStart | ConvergedAtEnd | BudgetExhausted

text \<open>The restart loop, with the number of passes still allowed.\<close>

fun restart_loop ::
  "(vec \<Rightarrow> vec) \<Rightarrow> (vec \<Rightarrow> vec) \<Rightarrow> real \<Rightarrow> nat \<Rightarrow> nat \<Rightarrow> vec \<Rightarrow> real \<Rightarrow> nat \<Rightarrow> gmres_state
     \<Rightarrow> error + (solve_exit \<times> gmres_state)" where
  "restart_loop A P eps n kd rhs norm_rhs 0 s = Inr (BudgetExhausted, s)"
| "restart_loop A P eps n kd rhs norm_rhs (Suc m) s =
     (case restart_cycle A P eps n kd rhs norm_rhs s of
        Inl e \<Rightarrow> Inl e
      | Inr (ReturnAtStart, s') \<Rightarrow> Inr (ConvergedAtStart, s')
      | Inr (ReturnAtEnd, s') \<Rightarrow> Inr (ConvergedAtEnd, s')
      | Inr (NextRestart, s') \<Rightarrow> restart_loop A P eps n kd rhs norm_rhs m s')"

text \<open>
  The local \<open>krylov_dim\<close>: the tag's, or \<open>problem_size\<close> when that is smaller.
  \<open>problem_size\<close> is the length of \<open>rhs\<close>, taken to fit an \<open>unsigned int\<close>.
\<close>

definition local_krylov_dim :: "vec \<Rightarrow> gmres_tag \<Rightarrow> nat" where
  "local_krylov_dim rhs tg =
     (if length rhs < unat (krylov_dim tg) then length rhs else unat (krylov_dim tg))"

text \<open>
  The working set as the declarations leave it.  The fields \<open>rho_0\<close> and \<open>rho\<close>
  have no value before the first pass of the restart loop; they start as 0.
\<close>

definition init_state :: "vec \<Rightarrow> gmres_tag \<Rightarrow> gmres_state" where
  "init_state rhs tg =
     \<lparr>result = zeros (length rhs), res = zeros (length rhs), v_k_tilde = zeros (length rhs),
      R = replicate (local_krylov_dim rhs tg) [],
      projection_rhs = zeros (local_krylov_dim rhs tg),
      U = replicate (local_krylov_dim rhs tg) [],
      rho_0 = 0, rho = 0, tag = tg\<rparr>"

text \<open>
  The working set at the entry of the restart loop: \<open>R[k]\<close> resized to the tag's
  \<open>krylov_dim\<close>, \<open>U[k]\<close> resized to \<open>problem_size\<close>, \<open>tag.iters(0)\<close>.
\<close>

definition loop_state :: "vec \<Rightarrow> gmres_tag \<Rightarrow> gmres_state" where
  "loop_state rhs tg =
     (init_state rhs tg)
       \<lparr>R := replicate (local_krylov_dim rhs tg) (zeros (unat (krylov_dim tg))),
        U := replicate (local_krylov_dim rhs tg) (zeros (length rhs)),
        tag := tg\<lparr>iters_taken := 0\<rparr>\<rparr>"

text \<open>
  \<open>solve_run\<close> is \<open>solve\<close> with its working set and the \<open>return\<close> statement it
  left through; \<open>solve\<close> keeps what the caller sees: the result vector and the tag.
\<close>

definition solve_run ::
  "(vec \<Rightarrow> vec) \<Rightarrow> (vec \<Rightarrow> vec) \<Rightarrow> real \<Rightarrow> vec \<Rightarrow> gmres_tag \<Rightarrow> error + (solve_exit \<times> gmres_state)" where
  "solve_run A P eps rhs tg =
     (if norm_2 rhs = 0 then Inr (ZeroRhs, init_state rhs tg)
      else case max_restarts tg of
             None \<Rightarrow> Inl DivByZero
           | Some mr \<Rightarrow>
               restart_loop A P eps (length rhs) (local_krylov_dim rhs tg) rhs (norm_2 rhs)
                 (unat mr + 1) (loop_state rhs tg))"

definition solve ::
  "(vec \<Rightarrow> vec) \<Rightarrow> (vec \<Rightarrow> vec) \<Rightarrow> real \<Rightarrow> vec \<Rightarrow> gmres_tag \<Rightarrow> error + (vec \<times> gmres_tag)" where
  "solve A P eps rhs tg =
     (case solve_run A P eps rhs tg of
        Inl e \<Rightarrow> Inl e
      | Inr (x, s) \<Rightarrow> Inr (result s, tag s))"

section \<open>Sizes of the working set\<close>

text \<open>
  The sizes the containers have between passes of the restart loop (\<open>sized_state\<close>)
  and inside the inner loop (\<open>wf_state\<close>), for \<open>n = problem_size\<close> and the local
  \<open>krylov_dim = kd\<close>.
\<close>

definition sized_state :: "nat \<Rightarrow> nat \<Rightarrow> gmres_state \<Rightarrow> bool" where
  "sized_state n kd s \<longleftrightarrow>
     0 < kd \<and> kd \<le> n \<and> length (result s) = n \<and> length (v_k_tilde s) = n \<and>
     length (projection_rhs s) = kd \<and> length (R s) = kd \<and> length (U s) = kd"

definition wf_state :: "nat \<Rightarrow> nat \<Rightarrow> gmres_state \<Rightarrow> bool" where
  "wf_state n kd s \<longleftrightarrow>
     0 < kd \<and> kd \<le> n \<and> length (result s) = n \<and> length (res s) = n \<and>
     length (v_k_tilde s) = n \<and> length (projection_rhs s) = kd \<and>
     length (R s) = kd \<and> length (U s) = kd \<and>
     (\<forall>i<kd. length (R s ! i) = kd) \<and> (\<forall>i<kd. length (U s ! i) = n)"

section \<open>Properties of the configuration\<close>

text \<open>
  C3: for every configuration with \<open>krylov_dim > 0\<close>, \<open>max_restarts()\<close> is the
  integer quotient \<open>max_iterations / krylov_dim\<close> (on the unsigned values), reduced
  by one exactly when the division has remainder zero and the quotient is positive; that
  many restarts of \<open>krylov_dim\<close> steps each stay within \<open>max_iterations\<close>.
\<close>

theorem max_restarts_quotient:
  assumes "krylov_dim cfg \<noteq> 0"
  shows "\<exists>r. max_restarts cfg = Some r \<and>
           unat r = (if unat (iterations cfg) mod unat (krylov_dim cfg) = 0
                        \<and> 0 < unat (iterations cfg) div unat (krylov_dim cfg)
                     then unat (iterations cfg) div unat (krylov_dim cfg) - 1
                     else unat (iterations cfg) div unat (krylov_dim cfg)) \<and>
           unat r * unat (krylov_dim cfg) \<le> unat (iterations cfg)"
proof -
  let ?n = "unat (iterations cfg)" and ?d = "unat (krylov_dim cfg)"
  let ?ret = "iterations cfg div krylov_dim cfg"
  have d: "0 < ?d" using assms by (simp add: unat_gt_0)
  have q: "unat ?ret = ?n div ?d" by (simp add: unat_div)
  have le: "?n div ?d * ?d \<le> ?n" by simp
  have lt: "?n < 2 ^ 32" using unsigned_less [of "iterations cfg"] by simp
  have m: "unat (?ret * krylov_dim cfg) = ?n div ?d * ?d"
  proof -
    have "unat (?ret * krylov_dim cfg) = (unat ?ret * ?d) mod 2 ^ 32"
      by (simp add: unat_word_ariths)
    also have "\<dots> = ?n div ?d * ?d"
    proof -
      have "?n div ?d * ?d < 2 ^ 32" using le lt by linarith
      then show ?thesis using q by simp
    qed
    finally show ?thesis .
  qed
  have exact: "?ret * krylov_dim cfg = iterations cfg \<longleftrightarrow> ?n mod ?d = 0"
  proof
    assume "?ret * krylov_dim cfg = iterations cfg"
    then have "?n div ?d * ?d = ?n" using m by simp
    then show "?n mod ?d = 0" by (metis mod_div_mult_eq add_cancel_right_right add.commute)
  next
    assume "?n mod ?d = 0"
    then have "?n div ?d * ?d = ?n" by auto
    then have "unat (?ret * krylov_dim cfg) = unat (iterations cfg)" using m by simp
    then show "?ret * krylov_dim cfg = iterations cfg" by (simp add: word_unat_eq_iff)
  qed
  have pos: "0 < ?ret \<longleftrightarrow> 0 < ?n div ?d" using q by (simp add: word_less_nat_alt)
  show ?thesis
  proof (cases "0 < ?ret \<and> ?ret * krylov_dim cfg = iterations cfg")
    case True
    then have "max_restarts cfg = Some (?ret - 1)" using assms by (simp add: max_restarts_def)
    moreover have u: "unat (?ret - 1) = ?n div ?d - 1"
      using True q pos by (simp add: unat_minus_one word_neq_0_conv)
    moreover have "(?n div ?d - 1) * ?d \<le> ?n div ?d * ?d" by (rule mult_le_mono1) simp
    then have "(?n div ?d - 1) * ?d \<le> ?n" using le by (rule order_trans)
    then have "unat (?ret - 1) * ?d \<le> ?n" unfolding u .
    ultimately show ?thesis using True exact pos by auto
  next
    case False
    then have "max_restarts cfg = Some ?ret" using assms by (auto simp: max_restarts_def Let_def)
    moreover have "unat ?ret * ?d \<le> ?n" using le q by simp
    ultimately show ?thesis using False exact pos q by auto
  qed
qed

theorem max_restarts_quotient_witness:
  "max_restarts (mk_gmres_tag (1 / 10) 300 20 0) = Some 14 \<and>
   max_restarts (mk_gmres_tag (1 / 10) 301 20 0) = Some 15 \<and>
   max_restarts (mk_gmres_tag (1 / 10) 7 20 0) = Some 0"
proof -
  have a: "krylov_dim (mk_gmres_tag (1 / 10) 300 20 0) \<noteq> 0" by (simp add: mk_gmres_tag_def)
  from max_restarts_quotient [OF a] obtain r where
    "max_restarts (mk_gmres_tag (1 / 10) 300 20 0) = Some r"
    "unat r = 14" by (auto simp: mk_gmres_tag_def)
  then have "max_restarts (mk_gmres_tag (1 / 10) 300 20 0) = Some 14"
    by (simp add: word_unat_eq_iff)
  then show ?thesis by (simp add: max_restarts_def mk_gmres_tag_def)
qed

section \<open>A right-hand side of norm zero\<close>

lemma solve_run_zero_rhs:
  assumes "norm_2 rhs = 0"
  shows "solve_run A P eps rhs tg = Inr (ZeroRhs, init_state rhs tg)"
  using assms by (simp add: solve_run_def)

text \<open>
  The path of a right-hand side of 2-norm zero: \<open>solve\<close> leaves through its first
  \<open>return\<close>, before the restart loop and before \<open>tag.iters(0)\<close>, with every
  \<open>U[k]\<close> still empty; it returns the zero vector of the dimension of \<open>rhs\<close> and
  writes nothing to the tag.
\<close>

lemma solve_zero_rhs:
  assumes "norm_2 rhs = 0"
  shows "(\<exists>s. solve_run A P eps rhs tg = Inr (ZeroRhs, s) \<and> list_all (\<lambda>u. u = []) (U s)) \<and>
         solve A P eps rhs tg = Inr (zeros (length rhs), tg)"
  using solve_run_zero_rhs [OF assms, of A P eps tg]
  by (simp add: solve_def list_all_length init_state_def)

text \<open>
  C2 on a tag that has been used before: the zero vector comes back, but
  \<open>tag.iters(0)\<close>, which every run with a nonzero right-hand side performs, comes after
  the early return, so the count of 5 that an earlier run left (or \<open>iters(5)\<close> set) is
  what the tag reports after the call, not 0.
\<close>

theorem solve_zero_rhs_stale_iters:
  "norm_2 [0, 0, 0] = 0 \<and>
   solve (\<lambda>v. v) no_precond (1 / 2 ^ 52) [0, 0, 0]
     \<lparr>tol = 1 / 10 ^ 10, iterations = 300, krylov_dim = 20, iters_taken = 5, last_error = 0\<rparr> =
     Inr ([0, 0, 0],
       \<lparr>tol = 1 / 10 ^ 10, iterations = 300, krylov_dim = 20, iters_taken = 5, last_error = 0\<rparr>) \<and>
   iters_taken \<lparr>tol = 1 / 10 ^ 10, iterations = 300, krylov_dim = 20, iters_taken = 5,
     last_error = (0::real)\<rparr> \<noteq> 0"
  by (simp add: solve_def solve_run_def init_state_def norm_2_def inner_prod_def zeros_def)

text \<open>
  C9 at the zero vector: two tags constructed with the same tolerance, iteration budget
  and Krylov dimension differ only in what the constructor left in \<open>last_error\<close>
  (here 1 and 2).  \<open>solve\<close> returns before it writes the error, so the two tags report
  different errors after the call.
\<close>

theorem fresh_tags_differ_on_zero_rhs:
  "solve (\<lambda>v. v) no_precond (1 / 2 ^ 52) [0] (mk_gmres_tag (1 / 10 ^ 10) 300 20 1) =
     Inr ([0], \<lparr>tol = 1 / 10 ^ 10, iterations = 300, krylov_dim = 20, iters_taken = 0,
                last_error = 1\<rparr>) \<and>
   solve (\<lambda>v. v) no_precond (1 / 2 ^ 52) [0] (mk_gmres_tag (1 / 10 ^ 10) 300 20 2) =
     Inr ([0], \<lparr>tol = 1 / 10 ^ 10, iterations = 300, krylov_dim = 20, iters_taken = 0,
                last_error = 2\<rparr>)"
  by (simp add: solve_def solve_run_def init_state_def norm_2_def inner_prod_def zeros_def
      mk_gmres_tag_def)

section \<open>Breakdown in the inner loop\<close>

lemma candidate_tag [simp]: "candidate A P k (s\<lparr>tag := t\<rparr>) = candidate A P k s"
  by (simp add: candidate_def)

lemma householder_column_diag:
  assumes "householder_column n k v = Inr u"
  shows "u ! k = sqrt (inner_prod v v - inner_prod (take k v @ zeros (n - k)) (take k v @ zeros (n - k)))
         \<and> length u = n \<and> k < n \<and> take k u = take k v"
  using assms
  by (auto simp: householder_column_def Let_def zeros_def min_def split: if_splits)

lemma krylov_step_breakdown:
  assumes "k < length (U s)" "candidate A P k s = Inr v" "householder_column n k v = Inr u"
    "\<bar>u ! k\<bar> < 10 * eps"
  shows "krylov_step A P eps n norm_rhs k s =
           Inr (Breakdown, s\<lparr>tag := (tag s)\<lparr>iters_taken := iters_taken (tag s) + 1\<rparr>,
                  v_k_tilde := v, U := (U s)[k := u]\<rparr>)"
  using assms by (simp add: krylov_step_def Let_def)

lemma krylov_loop_exit:
  assumes "k < kd" "krylov_step A P eps n norm_rhs k s = Inr (x, s')"
  shows "krylov_loop A P eps n norm_rhs kd k s =
           (case x of Breakdown \<Rightarrow> Inr (k, s') | Converged \<Rightarrow> Inr (k + 1, s')
            | Next \<Rightarrow> krylov_loop A P eps n norm_rhs kd (k + 1) s')"
  using assms by (subst krylov_loop.simps) (simp split: step_exit.splits)

lemma restart_cycle_enters_loop:
  assumes "norm_rhs \<noteq> 0" "\<not> norm_2 (residual A P rhs s) / norm_rhs < tol (tag s)"
    "norm_2 (residual A P rhs s) \<noteq> 0" "kd \<le> length (R s)" "kd \<le> length (U s)"
    "krylov_loop A P eps n norm_rhs kd 0 (cycle_init A P n kd rhs s) = Inr (k, s2)"
  shows "restart_cycle A P eps n kd rhs norm_rhs s = finish_cycle norm_rhs k s2"
  using assms by (simp add: restart_cycle_def Let_def)

text \<open>
  C4: at step \<open>k\<close> of the inner loop, with \<open>U[k][k]\<close> computed as
  \<open>sqrt(inner_prod(v, v) - inner_prod(U[k], U[k]))\<close> from the candidate \<open>v\<close> and
  below \<open>10 * epsilon\<close> in absolute value, the loop ends at once with the current
  \<open>k\<close> and no error: \<open>R\<close>, \<open>projection_rhs\<close>, \<open>rho\<close>, \<open>res\<close> and the
  recorded error are as before the step, and the pass of the restart loop that reached
  this step continues with the back-substitution over \<open>k\<close> rows.
\<close>

theorem breakdown_exits_inner_loop:
  assumes "k < kd" "k < length (U s)" "candidate A P k s = Inr v"
    "householder_column n k v = Inr u" "\<bar>u ! k\<bar> < 10 * eps"
  shows "u ! k = sqrt (inner_prod v v
                    - inner_prod (take k v @ zeros (n - k)) (take k v @ zeros (n - k))) \<and>
         (\<exists>s'. krylov_loop A P eps n norm_rhs kd k s = Inr (k, s') \<and>
            R s' = R s \<and> projection_rhs s' = projection_rhs s \<and> rho s' = rho s \<and>
            res s' = res s \<and> result s' = result s \<and>
            last_error (tag s') = last_error (tag s) \<and>
            (\<forall>rhs s0.
               norm_rhs \<noteq> 0 \<and> \<not> norm_2 (residual A P rhs s0) / norm_rhs < tol (tag s0) \<and>
               norm_2 (residual A P rhs s0) \<noteq> 0 \<and> kd \<le> length (R s0) \<and> kd \<le> length (U s0) \<and>
               krylov_loop A P eps n norm_rhs kd 0 (cycle_init A P n kd rhs s0) =
                 krylov_loop A P eps n norm_rhs kd k s
               \<longrightarrow> restart_cycle A P eps n kd rhs norm_rhs s0 = finish_cycle norm_rhs k s'))"
proof -
  let ?s' = "s\<lparr>tag := (tag s)\<lparr>iters_taken := iters_taken (tag s) + 1\<rparr>,
                  v_k_tilde := v, U := (U s)[k := u]\<rparr>"
  have loop: "krylov_loop A P eps n norm_rhs kd k s = Inr (k, ?s')"
    using krylov_loop_exit [OF assms(1) krylov_step_breakdown [OF assms(2-5)]] by simp
  have cyc: "restart_cycle A P eps n kd rhs norm_rhs s0 = finish_cycle norm_rhs k ?s'"
    if "norm_rhs \<noteq> 0" "\<not> norm_2 (residual A P rhs s0) / norm_rhs < tol (tag s0)"
      "norm_2 (residual A P rhs s0) \<noteq> 0" "kd \<le> length (R s0)" "kd \<le> length (U s0)"
      "krylov_loop A P eps n norm_rhs kd 0 (cycle_init A P n kd rhs s0) =
                 krylov_loop A P eps n norm_rhs kd k s" for rhs s0
    using restart_cycle_enters_loop [OF that(1-5)] that(6) loop by simp
  show ?thesis
    using householder_column_diag [OF assms(4)] loop cyc by auto
qed

theorem breakdown_exits_inner_loop_witness:
  "\<exists>s'. krylov_loop (map (\<lambda>x. 0)) no_precond (1 / 2 ^ 52) 1 1 1 0
      (cycle_init (map (\<lambda>x. 0)) no_precond 1 1 [1]
        \<lparr>result = [0], res = [0], v_k_tilde = [0], R = [[0]], projection_rhs = [0],
          U = [[0]], rho_0 = 0, rho = 0, tag = mk_gmres_tag (1 / 10 ^ 10) 300 20 0\<rparr>) = Inr (0, s')
     \<and> restart_cycle (map (\<lambda>x. 0)) no_precond (1 / 2 ^ 52) 1 1 [1] 1
        \<lparr>result = [0], res = [0], v_k_tilde = [0], R = [[0]], projection_rhs = [0],
          U = [[0]], rho_0 = 0, rho = 0, tag = mk_gmres_tag (1 / 10 ^ 10) 300 20 0\<rparr> = finish_cycle 1 0 s'"
proof -
  let ?A = "map (\<lambda>x::real. 0::real)"
  let ?ini = "\<lparr>result = [0], res = [0], v_k_tilde = [0], R = [[0]], projection_rhs = [0],
          U = [[0]], rho_0 = 0, rho = 0, tag = mk_gmres_tag (1 / 10 ^ 10) 300 20 0\<rparr>"
  let ?st = "cycle_init ?A no_precond 1 1 [1] ?ini"
  have r: "residual ?A no_precond [1] s = [1]" if "result s = [0]" for s
    using that by (simp add: residual_def no_precond_def vsub_def)
  have n: "norm_2 [1] = 1" by (simp add: norm_2_def inner_prod_def)
  have 1: "(0::nat) < 1" by simp
  have 2: "0 < length (U ?st)" by (simp add: cycle_init_def Let_def)
  have 3: "candidate ?A no_precond 0 ?st = Inr [0]"
    by (simp add: candidate_def cycle_init_def Let_def r n no_precond_def)
  have 4: "householder_column 1 0 [0] = Inr [0]"
    by (simp add: householder_column_def inner_prod_def zeros_def)
  have 5: "\<bar>[0::real] ! 0\<bar> < 10 * (1 / 2 ^ 52)" by simp
  from breakdown_exits_inner_loop [OF 1 2 3 4 5, of 1]
  obtain s' where a: "krylov_loop ?A no_precond (1 / 2 ^ 52) 1 1 1 0 ?st = Inr (0, s')"
    and b: "\<forall>rhs s0.
               (1::real) \<noteq> 0 \<and> \<not> norm_2 (residual ?A no_precond rhs s0) / 1 < tol (tag s0) \<and>
               norm_2 (residual ?A no_precond rhs s0) \<noteq> 0 \<and> 1 \<le> length (R s0) \<and> 1 \<le> length (U s0) \<and>
               krylov_loop ?A no_precond (1 / 2 ^ 52) 1 1 1 0 (cycle_init ?A no_precond 1 1 rhs s0) =
                 krylov_loop ?A no_precond (1 / 2 ^ 52) 1 1 1 0 ?st
               \<longrightarrow> restart_cycle ?A no_precond (1 / 2 ^ 52) 1 1 rhs 1 s0 = finish_cycle 1 0 s'"
    by blast
  have "restart_cycle ?A no_precond (1 / 2 ^ 52) 1 1 [1] 1 ?ini = finish_cycle 1 0 s'"
    using b [rule_format, of "[1]" ?ini] by (simp add: r n mk_gmres_tag_def)
  with a show ?thesis by blast
qed

section \<open>The residual-norm surrogate\<close>

lemma clamp_res_bounds: "0 \<le> r \<Longrightarrow> \<bar>clamp_res r x\<bar> \<le> r"
  by (auto simp: clamp_res_def Let_def)

lemma sin_arccos_range:
  assumes "- 1 \<le> y" "y \<le> 1"
  shows "0 \<le> sin (arccos y) \<and> sin (arccos y) \<le> 1"
  using arccos_lbound [OF assms] arccos_ubound [OF assms] by (simp add: sin_ge_zero)

lemma update_rho_Inr:
  assumes "update_rho k s = Inr s'" "0 \<le> rho s"
  shows "0 < rho s \<and> projection_rhs s' ! k = clamp_res (rho s) (res s ! k) \<and>
         res s' ! k = clamp_res (rho s) (res s ! k) \<and>
         rho s' = rho s * sin (arccos (clamp_res (rho s) (res s ! k) / rho s)) \<and>
         0 \<le> sin (arccos (clamp_res (rho s) (res s ! k) / rho s)) \<and>
         sin (arccos (clamp_res (rho s) (res s ! k) / rho s)) \<le> 1 \<and>
         rho_0 s' = rho_0 s \<and> tag s' = tag s \<and> result s' = result s \<and> R s' = R s \<and> U s' = U s"
proof -
  let ?x = "clamp_res (rho s) (res s ! k)"
  from assms have in_range: "k < length (res s)" "k < length (projection_rhs s)"
    and nz: "rho s \<noteq> 0" and dom: "- 1 \<le> ?x / rho s" "?x / rho s \<le> 1"
    and s': "s' = s\<lparr>res := (res s)[k := ?x], projection_rhs := (projection_rhs s)[k := ?x],
                    rho := rho s * sin (arccos (?x / rho s))\<rparr>"
    by (auto simp: update_rho_def Let_def split: if_splits)
  show ?thesis
    using sin_arccos_range [OF dom] nz assms(2) in_range by (simp add: s')
qed

lemma make_reflector_frame:
  assumes "make_reflector k u v s = Inr s'"
  shows "rho s' = rho s \<and> rho_0 s' = rho_0 s \<and> tag s' = tag s \<and> result s' = result s \<and>
         projection_rhs s' = projection_rhs s \<and> v_k_tilde s' = v_k_tilde s"
  using assms by (auto simp: make_reflector_def Let_def split: if_splits)

lemma krylov_step_rho:
  assumes "krylov_step A P eps n norm_rhs k s = Inr (x, s')" "0 \<le> rho s"
  shows "0 \<le> rho s' \<and> rho s' \<le> rho s \<and> rho_0 s' = rho_0 s \<and> result s' = result s \<and>
         (x \<noteq> Breakdown \<longrightarrow>
            projection_rhs s' ! k = res s' ! k \<and> (\<exists>y. projection_rhs s' ! k = clamp_res (rho s) y) \<and>
            \<bar>projection_rhs s' ! k\<bar> \<le> rho s \<and>
            rho s' = rho s * sin (arccos (projection_rhs s' ! k / rho s)) \<and>
            0 \<le> sin (arccos (projection_rhs s' ! k / rho s)) \<and>
            sin (arccos (projection_rhs s' ! k / rho s)) \<le> 1)"
proof -
  let ?s = "s\<lparr>tag := (tag s)\<lparr>iters_taken := iters_taken (tag s) + 1\<rparr>\<rparr>"
  from assms(1) obtain v where v: "candidate A P k s = Inr v"
    by (auto simp: krylov_step_def Let_def split: sum.splits)
  from assms(1) v obtain u where u: "householder_column n k v = Inr u" and kU: "k < length (U s)"
    by (auto simp: krylov_step_def Let_def split: sum.splits if_splits)
  let ?s1 = "?s\<lparr>v_k_tilde := v, U := (U ?s)[k := u]\<rparr>"
  show ?thesis
  proof (cases "\<bar>u ! k\<bar> < 10 * eps")
    case True
    with assms v u kU have "x = Breakdown" "s' = ?s1"
      by (auto simp: krylov_step_def Let_def)
    then show ?thesis using assms(2) by simp
  next
    case False
    with assms(1) v u kU obtain s2 s3 where
      s2: "make_reflector k u v ?s1 = Inr s2" and s3: "update_rho k s2 = Inr s3"
      and s': "s' = s3 \<or> s' = s3\<lparr>tag := (tag s3)\<lparr>last_error := \<bar>rho s3 * rho_0 s3 / norm_rhs\<bar>\<rparr>\<rparr>"
      by (auto simp: krylov_step_def Let_def split: sum.splits if_splits)
    have r2: "rho s2 = rho s" "rho_0 s2 = rho_0 s" "result s2 = result s"
      using make_reflector_frame [OF s2] by simp_all
    have nn: "0 \<le> rho s2" using r2 assms(2) by simp
    note ur = update_rho_Inr [OF s3 nn]
    let ?x = "clamp_res (rho s) (res s2 ! k)"
    have p: "projection_rhs s' ! k = ?x" "res s' ! k = ?x" "rho s' = rho s * sin (arccos (?x / rho s))"
      "rho_0 s' = rho_0 s" "result s' = result s"
      using ur s' r2 by auto
    have f: "0 \<le> sin (arccos (?x / rho s))" "sin (arccos (?x / rho s)) \<le> 1"
      using ur r2 by auto
    have pos: "0 < rho s" using ur r2 by simp
    have "rho s * sin (arccos (?x / rho s)) \<le> rho s * 1"
      using f pos by (intro mult_left_mono) simp_all
    moreover have "0 \<le> rho s * sin (arccos (?x / rho s))" using f pos by simp
    moreover have "\<bar>?x\<bar> \<le> rho s" using clamp_res_bounds [OF assms(2)] .
    ultimately show ?thesis using p f by auto
  qed
qed

lemma krylov_loop_rho:
  assumes "krylov_loop A P eps n norm_rhs kd k s = Inr (k', s')" "0 \<le> rho s"
  shows "0 \<le> rho s' \<and> rho s' \<le> rho s"
  using assms
proof (induction A P eps n norm_rhs kd k s rule: krylov_loop.induct)
  case (1 A P eps n norm_rhs kd k s)
  show ?case
  proof (cases "k < kd")
    case False
    with "1.prems" show ?thesis by (simp add: krylov_loop.simps)
  next
    case True
    with "1.prems"(1) obtain x s1 where st: "krylov_step A P eps n norm_rhs k s = Inr (x, s1)"
      by (subst (asm) krylov_loop.simps) (auto split: sum.splits)
    note sr = krylov_step_rho [OF st "1.prems"(2)]
    show ?thesis
    proof (cases x)
      case Next
      with True st "1.prems"(1) have "krylov_loop A P eps n norm_rhs kd (k + 1) s1 = Inr (k', s')"
        by (subst (asm) krylov_loop.simps) simp
      from "1.IH" [OF True st refl Next this] sr show ?thesis by auto
    next
      case Breakdown
      with True st "1.prems"(1) have "s' = s1" by (subst (asm) krylov_loop.simps) simp
      with sr show ?thesis by simp
    next
      case Converged
      with True st "1.prems"(1) have "s' = s1" by (subst (asm) krylov_loop.simps) simp
      with sr show ?thesis by simp
    qed
  qed
qed


lemmas step_defs = krylov_step_def candidate_def householder_column_def make_reflector_def
  update_rho_def clamp_res_def inner_prod_def norm_2_def vsub_def vadd_def vscale_def zeros_def
  clear_def reflect_def no_precond_def Let_def

text \<open>
  The clamp and the update of \<open>rho\<close>, for indices in range and a positive \<open>rho\<close>:
  \<open>res[k]\<close> is clamped into \<open>[-rho, rho]\<close>, the clamped value is stored in \<open>res[k]\<close>
  and in \<open>projection_rhs[k]\<close>, its quotient by \<open>rho\<close> is in the domain of \<open>acos\<close>, and
  \<open>rho\<close> is multiplied by a factor in \<open>[0, 1]\<close>.  This is what the steps do whose
  values are finite.
\<close>

lemma update_rho_clamps:
  assumes "k < length (res s)" "k < length (projection_rhs s)" "0 < rho s"
  shows "update_rho k s =
           Inr (s\<lparr>res := (res s)[k := clamp_res (rho s) (res s ! k)],
                  projection_rhs := (projection_rhs s)[k := clamp_res (rho s) (res s ! k)],
                  rho := rho s * sin (arccos (clamp_res (rho s) (res s ! k) / rho s))\<rparr>) \<and>
         - rho s \<le> clamp_res (rho s) (res s ! k) \<and> clamp_res (rho s) (res s ! k) \<le> rho s \<and>
         0 \<le> sin (arccos (clamp_res (rho s) (res s ! k) / rho s)) \<and>
         sin (arccos (clamp_res (rho s) (res s ! k) / rho s)) \<le> 1"
proof -
  let ?x = "clamp_res (rho s) (res s ! k)"
  have b: "\<bar>?x\<bar> \<le> rho s" using assms(3) by (intro clamp_res_bounds) simp
  then have lo: "- rho s \<le> ?x" and hi: "?x \<le> rho s" by simp_all
  have dom: "- 1 \<le> ?x / rho s" "?x / rho s \<le> 1"
    using lo hi assms(3) by (simp_all add: field_simps)
  have "update_rho k s =
           Inr (s\<lparr>res := (res s)[k := ?x], projection_rhs := (projection_rhs s)[k := ?x],
                  rho := rho s * sin (arccos (?x / rho s))\<rparr>)"
    using assms dom by (simp add: update_rho_def Let_def)
  with lo hi sin_arccos_range [OF dom] show ?thesis by simp
qed

section \<open>Back-substitution solves the transposed triangular system\<close>

lemma back_row_fold:
  fixes p :: "real list"
  assumes "i < length p" "i < a"
  shows "fold (\<lambda>j q. q[i := q ! i - Rm ! j ! i * q ! j]) [a..<b] p =
           p[i := p ! i - (\<Sum>j = a..<b. Rm ! j ! i * p ! j)]"
proof (induction b)
  case 0
  then show ?case by simp
next
  case (Suc b)
  show ?case
  proof (cases "a \<le> b")
    case False
    then show ?thesis by simp
  next
    case True
    then have ne: "b \<noteq> i" using assms(2) by simp
    from True have "[a..<Suc b] = [a..<b] @ [b]" by simp
    then show ?thesis
      using Suc True assms(1) ne by (simp add: sum.atLeastLessThan_Suc algebra_simps)
  qed
qed

lemma back_row_eq:
  assumes "i < length p"
  shows "back_row Rm k i p = p[i := p ! i - (\<Sum>j = i + 1..<k. Rm ! j ! i * p ! j)]"
  unfolding back_row_def using back_row_fold [OF assms, of "i + 1" Rm k] by simp

lemma back_substitution_sound:
  assumes "back_substitution Rm k m p = Inr c" "m \<le> k"
  shows "length c = length p \<and> (\<forall>i. m \<le> i \<longrightarrow> c ! i = p ! i) \<and>
         (\<forall>i<m. Rm ! i ! i \<noteq> 0 \<and>
                 c ! i = (p ! i - (\<Sum>j = i + 1..<k. Rm ! j ! i * c ! j)) / Rm ! i ! i)"
  using assms
proof (induction m arbitrary: p)
  case 0
  then show ?case by simp
next
  case (Suc m)
  let ?q = "back_row Rm k m p"
  let ?q' = "?q[m := ?q ! m / Rm ! m ! m]"
  from Suc.prems have rng: "row_in_range Rm k m p" and nz: "Rm ! m ! m \<noteq> 0"
    and rec: "back_substitution Rm k m ?q' = Inr c"
    by (auto simp: Let_def split: if_splits)
  from rng Suc.prems(2) have mlen: "m < length p" by (simp add: row_in_range_def)
  have q: "?q = p[m := p ! m - (\<Sum>j = m + 1..<k. Rm ! j ! m * p ! j)]"
    using back_row_eq [OF mlen] .
  from Suc.prems(2) have "m \<le> k" by simp
  note IH = Suc.IH [OF rec this]
  have len: "length c = length p" using IH q by simp
  have hi: "c ! i = p ! i" if "Suc m \<le> i" for i
  proof -
    have "c ! i = ?q' ! i" using IH that by simp
    also have "\<dots> = p ! i" using that q by simp
    finally show ?thesis .
  qed
  have mid: "c ! m = (p ! m - (\<Sum>j = m + 1..<k. Rm ! j ! m * c ! j)) / Rm ! m ! m"
  proof -
    have "c ! m = ?q' ! m" using IH by simp
    also have "\<dots> = (p ! m - (\<Sum>j = m + 1..<k. Rm ! j ! m * p ! j)) / Rm ! m ! m"
      using q mlen by simp
    also have "(\<Sum>j = m + 1..<k. Rm ! j ! m * p ! j) = (\<Sum>j = m + 1..<k. Rm ! j ! m * c ! j)"
      by (rule sum.cong) (simp_all add: hi)
    finally show ?thesis .
  qed
  have lo: "Rm ! i ! i \<noteq> 0 \<and> c ! i = (p ! i - (\<Sum>j = i + 1..<k. Rm ! j ! i * c ! j)) / Rm ! i ! i"
    if "i < m" for i
  proof -
    have "?q' ! i = p ! i" using that q by simp
    then show ?thesis using IH that by simp
  qed
  show ?case
  proof (intro conjI allI impI)
    show "length c = length p" by (rule len)
  next
    fix i assume "Suc m \<le> i" then show "c ! i = p ! i" by (rule hi)
  next
    fix i assume "i < Suc m"
    then have "i < m \<or> i = m" by auto
    then show "Rm ! i ! i \<noteq> 0" using lo nz by auto
  next
    fix i assume "i < Suc m"
    then have "i < m \<or> i = m" by auto
    then show "c ! i = (p ! i - (\<Sum>j = i + 1..<k. Rm ! j ! i * c ! j)) / Rm ! i ! i"
      using lo mid by auto
  qed
qed

lemma length_back_row: "length (back_row Rm k i p) = length p"
proof -
  have "length (fold (\<lambda>j q. q[i := q ! i - Rm ! j ! i * q ! j]) xs p) = length p" for xs
    by (induction xs arbitrary: p) simp_all
  then show ?thesis by (simp add: back_row_def)
qed

lemma back_substitution_total:
  assumes "k \<le> length p" "k \<le> length Rm" "\<forall>j<k. k \<le> length (Rm ! j)"
    "\<forall>i<m. Rm ! i ! i \<noteq> 0" "m \<le> k"
  shows "\<exists>c. back_substitution Rm k m p = Inr c"
  using assms
proof (induction m arbitrary: p)
  case 0
  then show ?case by simp
next
  case (Suc m)
  have rng: "row_in_range Rm k m p"
    using Suc.prems by (auto simp: row_in_range_def list_all_iff)
  let ?q = "back_row Rm k m p"
  let ?q' = "?q[m := ?q ! m / Rm ! m ! m]"
  have "k \<le> length ?q'" using Suc.prems(1) by (simp add: length_back_row)
  from Suc.IH [OF this Suc.prems(2,3)] Suc.prems(4,5)
  obtain c where "back_substitution Rm k m ?q' = Inr c" by auto
  then show ?case using rng Suc.prems(4) by (simp add: Let_def)
qed

text \<open>
  C5: for an effective size \<open>k\<close> within the sizes of \<open>R\<close> and \<open>projection_rhs\<close>
  and with every \<open>R[i][i]\<close>, \<open>i < k\<close>, nonzero, the back-substitution loop returns
  coefficients \<open>c\<close> in the place of \<open>projection_rhs = p\<close> (entries from \<open>k\<close> on
  untouched) with \<open>c[i] = (p[i] - \<Sum> j = i+1..k-1. R[j][i] * c[j]) / R[i][i]\<close>, that
  is \<open>\<Sum> j = i..k-1. R[j][i] * c[j] = p[i]\<close>, for every \<open>i < k\<close>.
\<close>

theorem back_substitution_solves:
  assumes "k \<le> length p" "k \<le> length Rm" "\<forall>j<k. k \<le> length (Rm ! j)"
    "\<forall>i<k. Rm ! i ! i \<noteq> 0"
  shows "\<exists>c. back_substitution Rm k k p = Inr c \<and> length c = length p \<and>
           (\<forall>i. k \<le> i \<longrightarrow> c ! i = p ! i) \<and>
           (\<forall>i<k. c ! i = (p ! i - (\<Sum>j = i + 1..<k. Rm ! j ! i * c ! j)) / Rm ! i ! i) \<and>
           (\<forall>i<k. (\<Sum>j = i..<k. Rm ! j ! i * c ! j) = p ! i)"
proof -
  from back_substitution_total [OF assms order_refl]
  obtain c where c: "back_substitution Rm k k p = Inr c" by blast
  note snd = back_substitution_sound [OF c order_refl]
  have row: "(\<Sum>j = i..<k. Rm ! j ! i * c ! j) = p ! i" if "i < k" for i
  proof -
    have nz: "Rm ! i ! i \<noteq> 0" using assms(4) that by simp
    have ci: "c ! i = (p ! i - (\<Sum>j = i + 1..<k. Rm ! j ! i * c ! j)) / Rm ! i ! i"
      using snd that by simp
    have "(\<Sum>j = i..<k. Rm ! j ! i * c ! j) =
            Rm ! i ! i * c ! i + (\<Sum>j = i + 1..<k. Rm ! j ! i * c ! j)"
      using that by (simp add: sum.atLeast_Suc_lessThan)
    also have "\<dots> = p ! i" using nz by (simp add: ci)
    finally show ?thesis .
  qed
  show ?thesis using c snd row by auto
qed

theorem back_substitution_solves_witness:
  "back_substitution [[2, 0], [1, 4]] 2 2 [5, 8] = Inr [3 / 2, 2] \<and>
   (\<Sum>j = 0..<2. [[2, 0], [1, 4]] ! j ! 0 * [3 / 2, 2 :: real] ! j) = [5, 8] ! 0 \<and>
   (\<Sum>j = 1..<2. [[2, 0], [1, 4]] ! j ! 1 * [3 / 2, 2 :: real] ! j) = [5, 8] ! 1"
proof -
  let ?R = "[[2, 0], [1, 4 :: real]]" and ?p = "[5, 8 :: real]"
  have e: "back_substitution ?R 2 2 ?p = Inr [3 / 2, 2]"
    by (simp add: numeral_2_eq_2 row_in_range_def back_row_def)
  have h1: "2 \<le> length ?p" and h2: "2 \<le> length ?R" by simp_all
  have h3: "\<forall>j<2. 2 \<le> length (?R ! j)" by (simp add: less_Suc_eq numeral_2_eq_2)
  have h4: "\<forall>i<2. ?R ! i ! i \<noteq> 0" by (simp add: less_Suc_eq numeral_2_eq_2)
  from back_substitution_solves [OF h1 h2 h3 h4]
  obtain c where c: "back_substitution ?R 2 2 ?p = Inr c"
    and rows: "\<forall>i<2. (\<Sum>j = i..<2. ?R ! j ! i * c ! j) = ?p ! i" by blast
  from c e have "c = [3 / 2, 2]" by simp
  with rows have "\<forall>i<2. (\<Sum>j = i..<2. ?R ! j ! i * [3 / 2, 2 :: real] ! j) = ?p ! i" by simp
  then have "(\<Sum>j = 0..<2. ?R ! j ! 0 * [3 / 2, 2 :: real] ! j) = ?p ! 0"
    "(\<Sum>j = 1..<2. ?R ! j ! 1 * [3 / 2, 2 :: real] ! j) = ?p ! 1" by simp_all
  with e show ?thesis by blast
qed

section \<open>What a pass of the restart loop leaves unchanged, and the error it records\<close>

lemma reconstruct_frame:
  assumes "reconstruct k s = Inr s'"
  shows "rho s' = rho s \<and> rho_0 s' = rho_0 s \<and> tag s' = tag s \<and>
         projection_rhs s' = projection_rhs s \<and> R s' = R s \<and> U s' = U s"
  using assms by (auto simp: reconstruct_def Let_def split: if_splits)

lemma finish_cycle_error:
  assumes "finish_cycle norm_rhs k s2 = Inr (x, s')"
  shows "rho s' = rho s2 \<and> rho_0 s' = rho_0 s2 \<and> x \<noteq> ReturnAtStart \<and>
         (x = ReturnAtEnd \<longrightarrow> last_error (tag s') = \<bar>rho s' * rho_0 s' / norm_rhs\<bar> \<and>
              \<bar>rho s' * rho_0 s' / norm_rhs\<bar> < tol (tag s')) \<and>
         (x = NextRestart \<longrightarrow> last_error (tag s') = \<bar>rho s' * rho_0 s'\<bar> \<and>
              \<not> \<bar>rho s' * rho_0 s' / norm_rhs\<bar> < tol (tag s'))"
proof -
  from assms obtain p s3 where "reconstruct k (s2\<lparr>projection_rhs := p\<rparr>) = Inr s3"
    and s': "(x, s') = (if \<bar>rho s3 * rho_0 s3 / norm_rhs\<bar> < tol (tag s3)
               then (ReturnAtEnd,
                      s3\<lparr>tag := (tag s3)\<lparr>last_error := \<bar>rho s3 * rho_0 s3 / norm_rhs\<bar>\<rparr>\<rparr>)
               else (NextRestart,
                      s3\<lparr>tag := (tag s3)\<lparr>last_error := \<bar>rho s3 * rho_0 s3\<bar>\<rparr>\<rparr>))"
    by (auto simp: finish_cycle_def split: sum.splits if_splits)
  from reconstruct_frame [OF this(1)] s' show ?thesis by (auto split: if_splits)
qed

lemma krylov_step_frame:
  assumes "krylov_step A P eps n norm_rhs k s = Inr (x, s')"
  shows "rho_0 s' = rho_0 s \<and> result s' = result s \<and> tol (tag s') = tol (tag s)"
proof -
  from assms obtain v where v: "candidate A P k s = Inr v"
    by (auto simp: krylov_step_def Let_def split: sum.splits)
  from assms v obtain u where u: "householder_column n k v = Inr u" and kU: "k < length (U s)"
    by (auto simp: krylov_step_def Let_def split: sum.splits if_splits)
  show ?thesis
  proof (cases "\<bar>u ! k\<bar> < 10 * eps")
    case True
    with assms v u kU show ?thesis by (auto simp: krylov_step_def Let_def)
  next
    case False
    let ?s1 = "s\<lparr>tag := (tag s)\<lparr>iters_taken := iters_taken (tag s) + 1\<rparr>,
                 v_k_tilde := v, U := (U s)[k := u]\<rparr>"
    from False assms v u kU obtain s2 s3 where
      s2: "make_reflector k u v ?s1 = Inr s2" and s3: "update_rho k s2 = Inr s3"
      and s': "s' = s3 \<or> s' = s3\<lparr>tag := (tag s3)\<lparr>last_error := \<bar>rho s3 * rho_0 s3 / norm_rhs\<bar>\<rparr>\<rparr>"
      by (auto simp: krylov_step_def Let_def split: sum.splits if_splits)
    have "rho_0 s3 = rho_0 s2 \<and> result s3 = result s2 \<and> tag s3 = tag s2"
      using s3 by (auto simp: update_rho_def Let_def split: if_splits)
    with make_reflector_frame [OF s2] s' show ?thesis by auto
  qed
qed

lemma krylov_loop_frame:
  assumes "krylov_loop A P eps n norm_rhs kd k s = Inr (k', s')"
  shows "rho_0 s' = rho_0 s \<and> result s' = result s \<and> tol (tag s') = tol (tag s)"
  using assms
proof (induction A P eps n norm_rhs kd k s rule: krylov_loop.induct)
  case (1 A P eps n norm_rhs kd k s)
  show ?case
  proof (cases "k < kd")
    case False
    with "1.prems" show ?thesis by (simp add: krylov_loop.simps)
  next
    case True
    with "1.prems"(1) obtain x s1 where st: "krylov_step A P eps n norm_rhs k s = Inr (x, s1)"
      by (subst (asm) krylov_loop.simps) (auto split: sum.splits)
    note sf = krylov_step_frame [OF st]
    show ?thesis
    proof (cases x)
      case Next
      with True st "1.prems"(1) have "krylov_loop A P eps n norm_rhs kd (k + 1) s1 = Inr (k', s')"
        by (subst (asm) krylov_loop.simps) simp
      from "1.IH" [OF True st refl Next this] sf show ?thesis by auto
    next
      case Breakdown
      with True st "1.prems"(1) have "s' = s1" by (subst (asm) krylov_loop.simps) simp
      with sf show ?thesis by simp
    next
      case Converged
      with True st "1.prems"(1) have "s' = s1" by (subst (asm) krylov_loop.simps) simp
      with sf show ?thesis by simp
    qed
  qed
qed

lemma restart_cycle_error:
  assumes "restart_cycle A P eps n kd rhs norm_rhs s = Inr (x, s')"
  shows "norm_rhs \<noteq> 0 \<and> rho_0 s' = norm_2 (residual A P rhs s) \<and>
         (x = ReturnAtStart \<longrightarrow> last_error (tag s') = rho_0 s' / norm_rhs \<and>
              rho_0 s' / norm_rhs < tol (tag s') \<and> result s' = result s) \<and>
         (x = ReturnAtEnd \<longrightarrow> last_error (tag s') = \<bar>rho s' * rho_0 s' / norm_rhs\<bar> \<and>
              \<bar>rho s' * rho_0 s' / norm_rhs\<bar> < tol (tag s')) \<and>
         (x = NextRestart \<longrightarrow> last_error (tag s') = \<bar>rho s' * rho_0 s'\<bar> \<and>
              \<not> \<bar>rho s' * rho_0 s' / norm_rhs\<bar> < tol (tag s'))"
proof -
  let ?rho0 = "norm_2 (residual A P rhs s)"
  from assms have nz: "norm_rhs \<noteq> 0"
    by (auto simp: restart_cycle_def Let_def split: if_splits)
  show ?thesis
  proof (cases "?rho0 / norm_rhs < tol (tag s)")
    case True
    with assms nz show ?thesis by (auto simp: restart_cycle_def Let_def)
  next
    case False
    with assms nz obtain k s2 where
      lp: "krylov_loop A P eps n norm_rhs kd 0 (cycle_init A P n kd rhs s) = Inr (k, s2)"
      and fc: "finish_cycle norm_rhs k s2 = Inr (x, s')"
      by (auto simp: restart_cycle_def Let_def split: if_splits sum.splits)
    have "rho_0 s2 = ?rho0" using krylov_loop_frame [OF lp] by (simp add: cycle_init_def Let_def)
    with finish_cycle_error [OF fc] nz show ?thesis by auto
  qed
qed

lemma restart_loop_error:
  assumes "restart_loop A P eps n kd rhs norm_rhs m s = Inr (x, s')" "0 < m"
  shows "norm_rhs \<noteq> 0 \<and> x \<noteq> ZeroRhs \<and>
         (x = BudgetExhausted \<longrightarrow> last_error (tag s') = \<bar>rho s' * rho_0 s'\<bar> \<and>
              \<not> \<bar>rho s' * rho_0 s' / norm_rhs\<bar> < tol (tag s')) \<and>
         (x = ConvergedAtEnd \<longrightarrow> last_error (tag s') = \<bar>rho s' * rho_0 s' / norm_rhs\<bar> \<and>
              \<bar>rho s' * rho_0 s' / norm_rhs\<bar> < tol (tag s')) \<and>
         (x = ConvergedAtStart \<longrightarrow> last_error (tag s') = rho_0 s' / norm_rhs \<and>
              rho_0 s' / norm_rhs < tol (tag s'))"
  using assms
proof (induction m arbitrary: s)
  case 0
  then show ?case by simp
next
  case (Suc m)
  from Suc.prems(1) obtain y s1 where
    cy: "restart_cycle A P eps n kd rhs norm_rhs s = Inr (y, s1)"
    by (auto split: sum.splits)
  note ce = restart_cycle_error [OF cy]
  show ?case
  proof (cases y)
    case ReturnAtStart
    with cy Suc.prems(1) have "x = ConvergedAtStart" "s' = s1" by simp_all
    with ce ReturnAtStart show ?thesis by auto
  next
    case ReturnAtEnd
    with cy Suc.prems(1) have "x = ConvergedAtEnd" "s' = s1" by simp_all
    with ce ReturnAtEnd show ?thesis by auto
  next
    case NextRestart
    with cy Suc.prems(1) have rec: "restart_loop A P eps n kd rhs norm_rhs m s1 = Inr (x, s')"
      by simp
    show ?thesis
    proof (cases m)
      case 0
      with rec have "x = BudgetExhausted" "s' = s1" by simp_all
      with ce NextRestart show ?thesis by auto
    next
      case (Suc m')
      then have "0 < m" by simp
      from Suc.IH [OF rec this] show ?thesis .
    qed
  qed
qed

section \<open>A worked example: a singular operator on two unknowns\<close>

text \<open>
  The operator \<open>[[1, 0], [0, 0]]\<close>, \<open>rhs = (-3, 4)\<close>, a Krylov dimension of 1.  The
  first pass ends with \<open>result = (-3, 4)\<close>; in the second the candidate vector is zero,
  the inner loop breaks down at \<open>k = 0\<close>, and \<open>projection_rhs[0]\<close> is still the 1 that
  the first pass left.
\<close>

lemma sqrt_sq: "0 \<le> y \<Longrightarrow> x = y * y \<Longrightarrow> sqrt x = y"
  by (simp add: real_sqrt_mult)

lemma sqrt_vals: "sqrt 25 = 5" "sqrt (9 / 25) = 3 / 5" "sqrt (36 / 25) = 6 / 5"
  "sqrt (16 / 25) = 4 / 5" "sqrt 16 = 4"
  by (rule sqrt_sq; simp)+

lemma sin_arccos_35: "sin (arccos (3 / 5)) = 4 / 5"
  by (simp add: sin_arccos power2_eq_square sqrt_vals)

lemma krylov_loop_done: "krylov_loop A P eps n norm_rhs kd kd s = Inr (kd, s)"
  by (simp add: krylov_loop.simps)

lemma ex_cycle1:
  assumes "tol t = 1 / 10 ^ 10"
  shows "restart_cycle (\<lambda>v. [v ! 0, 0]) no_precond (1 / 2 ^ 52) 2 1 [- 3, 4] 5
     \<lparr>result = [0, 0], res = r, v_k_tilde = w, R = [r0], projection_rhs = [0],
      U = [u0], rho_0 = a, rho = b, tag = t\<rparr> =
   Inr (NextRestart,
     \<lparr>result = [- 3, 4], res = [- 3, 4], v_k_tilde = [- (3 / 5), 0], R = [[3 / 5]],
      projection_rhs = [1], U = [[- 1, 0]], rho_0 = 5, rho = 4 / 5,
      tag = t\<lparr>iters_taken := iters_taken t + 1, last_error := 4\<rparr>\<rparr>)"
proof -
  let ?A = "\<lambda>v::vec. [v ! 0, 0]"
  let ?s = "\<lparr>result = [0, 0], res = r, v_k_tilde = w, R = [r0], projection_rhs = [0],
      U = [u0], rho_0 = a, rho = b, tag = t\<rparr>"
  let ?s1 = "\<lparr>result = [0, 0], res = [- (3 / 5), 4 / 5], v_k_tilde = w, R = [[0]],
      projection_rhs = [0], U = [[0, 0]], rho_0 = 5, rho = 1, tag = t\<rparr>"
  let ?s2 = "\<lparr>result = [0, 0], res = [3 / 5, 4 / 5], v_k_tilde = [- (3 / 5), 0],
      R = [[3 / 5]], projection_rhs = [3 / 5], U = [[- 1, 0]], rho_0 = 5, rho = 4 / 5,
      tag = t\<lparr>iters_taken := iters_taken t + 1\<rparr>\<rparr>"
  have r: "residual ?A no_precond [- 3, 4] ?s = [- 3, 4]"
    by (simp add: residual_def no_precond_def vsub_def)
  have n: "norm_2 [- 3, 4] = 5" by (simp add: norm_2_def inner_prod_def sqrt_vals)
  have i: "cycle_init ?A no_precond 2 1 [- 3, 4] ?s = ?s1"
    by (simp add: cycle_init_def r n zeros_def numeral_2_eq_2)
  have st: "krylov_step ?A no_precond (1 / 2 ^ 52) 2 5 0 ?s1 = Inr (Next, ?s2)"
    using assms by (simp add: step_defs numeral_2_eq_2 sqrt_vals sin_arccos_35)
  have lp: "krylov_loop ?A no_precond (1 / 2 ^ 52) 2 5 1 0 ?s1 = Inr (1, ?s2)"
    using krylov_loop_exit [OF _ st, of 1] by (simp add: krylov_loop_done)
  have fin: "finish_cycle 5 1 ?s2 =
      Inr (NextRestart,
     \<lparr>result = [- 3, 4], res = [- 3, 4], v_k_tilde = [- (3 / 5), 0], R = [[3 / 5]],
      projection_rhs = [1], U = [[- 1, 0]], rho_0 = 5, rho = 4 / 5,
      tag = t\<lparr>iters_taken := iters_taken t + 1, last_error := 4\<rparr>\<rparr>)"
    using assms
    by (simp add: finish_cycle_def reconstruct_def row_in_range_def back_row_def
      inner_prod_def vsub_def vadd_def vscale_def reflect_def Let_def)
  have lp': "krylov_loop ?A no_precond (1 / 2 ^ 52) 2 5 1 0
      (cycle_init ?A no_precond 2 1 [- 3, 4] ?s) = Inr (1, ?s2)"
    unfolding i by (rule lp)
  have "restart_cycle ?A no_precond (1 / 2 ^ 52) 2 1 [- 3, 4] 5 ?s = finish_cycle 5 1 ?s2"
    by (rule restart_cycle_enters_loop [OF _ _ _ _ _ lp']) (simp_all add: r n assms)
  with fin show ?thesis by simp
qed

lemma ex_cycle2:
  assumes "tol t = 1 / 10 ^ 10"
  shows "restart_cycle (\<lambda>v. [v ! 0, 0]) no_precond (1 / 2 ^ 52) 2 1 [- 3, 4] 5
     \<lparr>result = [- 3, 4], res = r, v_k_tilde = w, R = [r0], projection_rhs = [1],
      U = [u0], rho_0 = a, rho = b, tag = t\<rparr> =
   Inr (NextRestart,
     \<lparr>result = [- 3, 8], res = [0, 4], v_k_tilde = [0, 0], R = [[0]],
      projection_rhs = [1], U = [[0, 0]], rho_0 = 4, rho = 1,
      tag = t\<lparr>iters_taken := iters_taken t + 1, last_error := 4\<rparr>\<rparr>)"
proof -
  let ?A = "\<lambda>v::vec. [v ! 0, 0]"
  let ?s = "\<lparr>result = [- 3, 4], res = r, v_k_tilde = w, R = [r0], projection_rhs = [1],
      U = [u0], rho_0 = a, rho = b, tag = t\<rparr>"
  let ?s1 = "\<lparr>result = [- 3, 4], res = [0, 1], v_k_tilde = w, R = [[0]],
      projection_rhs = [1], U = [[0, 0]], rho_0 = 4, rho = 1, tag = t\<rparr>"
  let ?s2 = "\<lparr>result = [- 3, 4], res = [0, 1], v_k_tilde = [0, 0],
      R = [[0]], projection_rhs = [1], U = [[0, 0]], rho_0 = 4, rho = 1,
      tag = t\<lparr>iters_taken := iters_taken t + 1\<rparr>\<rparr>"
  have r: "residual ?A no_precond [- 3, 4] ?s = [0, 4]"
    by (simp add: residual_def no_precond_def vsub_def)
  have n: "norm_2 [0, 4] = 4" by (simp add: norm_2_def inner_prod_def sqrt_vals)
  have i: "cycle_init ?A no_precond 2 1 [- 3, 4] ?s = ?s1"
    by (simp add: cycle_init_def r n zeros_def numeral_2_eq_2)
  have st: "krylov_step ?A no_precond (1 / 2 ^ 52) 2 5 0 ?s1 = Inr (Breakdown, ?s2)"
    using assms by (simp add: step_defs numeral_2_eq_2)
  have lp: "krylov_loop ?A no_precond (1 / 2 ^ 52) 2 5 1 0 ?s1 = Inr (0, ?s2)"
    using krylov_loop_exit [OF _ st, of 1] by simp
  have fin: "finish_cycle 5 0 ?s2 =
      Inr (NextRestart,
     \<lparr>result = [- 3, 8], res = [0, 4], v_k_tilde = [0, 0], R = [[0]],
      projection_rhs = [1], U = [[0, 0]], rho_0 = 4, rho = 1,
      tag = t\<lparr>iters_taken := iters_taken t + 1, last_error := 4\<rparr>\<rparr>)"
    using assms
    by (simp add: finish_cycle_def reconstruct_def row_in_range_def back_row_def
      inner_prod_def vsub_def vadd_def vscale_def reflect_def Let_def)
  have lp': "krylov_loop ?A no_precond (1 / 2 ^ 52) 2 5 1 0
      (cycle_init ?A no_precond 2 1 [- 3, 4] ?s) = Inr (0, ?s2)"
    unfolding i by (rule lp)
  have "restart_cycle ?A no_precond (1 / 2 ^ 52) 2 1 [- 3, 4] 5 ?s = finish_cycle 5 0 ?s2"
    by (rule restart_cycle_enters_loop [OF _ _ _ _ _ lp']) (simp_all add: r n assms)
  with fin show ?thesis by simp
qed

section \<open>The error recorded at each exit of solve\<close>

text \<open>
  C8: when \<open>solve\<close> leaves through the \<open>return result\<close> after the restart loop
  (all \<open>max_restarts() + 1\<close> passes done, no test met), it returns the accumulated
  \<open>result\<close> and the recorded error is \<open>|rho * rho_0|\<close>, not divided by
  \<open>norm_rhs\<close>; when it leaves through the test at the end of a pass the error is
  \<open>|rho * rho_0 / norm_rhs|\<close>, and through the test at the start of a pass it is
  \<open>rho_0 / norm_rhs\<close>.
\<close>

theorem exhausted_error_unnormalised:
  assumes "solve_run A P eps rhs tg = Inr (x, s)"
  shows "solve A P eps rhs tg = Inr (result s, tag s) \<and>
         (x = BudgetExhausted \<longrightarrow> last_error (tag s) = \<bar>rho s * rho_0 s\<bar> \<and>
              \<not> \<bar>rho s * rho_0 s / norm_2 rhs\<bar> < tol (tag s)) \<and>
         (x = ConvergedAtEnd \<longrightarrow> last_error (tag s) = \<bar>rho s * rho_0 s / norm_2 rhs\<bar> \<and>
              \<bar>rho s * rho_0 s / norm_2 rhs\<bar> < tol (tag s)) \<and>
         (x = ConvergedAtStart \<longrightarrow> last_error (tag s) = rho_0 s / norm_2 rhs \<and>
              rho_0 s / norm_2 rhs < tol (tag s))"
proof (cases "norm_2 rhs = 0")
  case True
  with assms have "x = ZeroRhs" by (simp add: solve_run_zero_rhs)
  with assms show ?thesis by (simp add: solve_def)
next
  case False
  show ?thesis
  proof (cases "max_restarts tg")
    case None
    with False assms show ?thesis by (simp add: solve_run_def)
  next
    case (Some mr)
    with False assms have
      "restart_loop A P eps (length rhs) (local_krylov_dim rhs tg) rhs (norm_2 rhs)
         (unat mr + 1) (loop_state rhs tg) = Inr (x, s)"
      by (simp add: solve_run_def del: restart_loop.simps)
    from restart_loop_error [OF this] assms show ?thesis by (simp add: solve_def)
  qed
qed

theorem exhausted_error_unnormalised_witness:
  "(\<exists>s. solve_run (\<lambda>v. [v ! 0, 0]) no_precond (1 / 2 ^ 52) [- 3, 4]
          (mk_gmres_tag (1 / 10 ^ 10) 1 1 0) = Inr (BudgetExhausted, s) \<and>
        result s = [- 3, 4] \<and> rho s = 4 / 5 \<and> rho_0 s = 5 \<and>
        last_error (tag s) = \<bar>rho s * rho_0 s\<bar> \<and> last_error (tag s) = 4) \<and>
   norm_2 [- 3, 4] = 5"
proof -
  let ?A = "\<lambda>v::vec. [v ! 0, 0]"
  let ?t = "\<lparr>tol = 1 / 10 ^ 10, iterations = 1, krylov_dim = 1, iters_taken = 0, last_error = 0\<rparr>"
  let ?s = "\<lparr>result = [- 3, 4], res = [- 3, 4], v_k_tilde = [- (3 / 5), 0], R = [[3 / 5]],
      projection_rhs = [1], U = [[- 1, 0]], rho_0 = 5, rho = 4 / 5,
      tag = ?t\<lparr>iters_taken := iters_taken ?t + 1, last_error := 4\<rparr>\<rparr>"
  have n: "norm_2 [- 3, 4] = 5" by (simp add: norm_2_def inner_prod_def sqrt_vals)
  have t: "tol ?t = 1 / 10 ^ 10" by simp
  have ls: "loop_state [- 3, 4] (mk_gmres_tag (1 / 10 ^ 10) 1 1 0) =
      \<lparr>result = [0, 0], res = [0, 0], v_k_tilde = [0, 0], R = [[0]], projection_rhs = [0],
       U = [[0, 0]], rho_0 = 0, rho = 0, tag = ?t\<rparr>"
    by (simp add: loop_state_def init_state_def local_krylov_dim_def mk_gmres_tag_def zeros_def
        numeral_2_eq_2)
  have kd: "local_krylov_dim [- 3, 4] (mk_gmres_tag (1 / 10 ^ 10) 1 1 0) = 1"
    by (simp add: local_krylov_dim_def mk_gmres_tag_def)
  have mr: "max_restarts (mk_gmres_tag (1 / 10 ^ 10) 1 1 0) = Some 0"
    by (simp add: max_restarts_def mk_gmres_tag_def)
  have len: "length [- 3, 4 :: real] = 2" by simp
  have lp: "restart_loop ?A no_precond (1 / 2 ^ 52) 2 1 [- 3, 4] 5 (unat (0 :: 32 word) + 1)
      \<lparr>result = [0, 0], res = [0, 0], v_k_tilde = [0, 0], R = [[0]], projection_rhs = [0],
       U = [[0, 0]], rho_0 = 0, rho = 0, tag = ?t\<rparr> = Inr (BudgetExhausted, ?s)"
    using ex_cycle1 [OF t, of "[0, 0]" "[0, 0]" "[0]" "[0, 0]" 0 0] by simp
  have run: "solve_run ?A no_precond (1 / 2 ^ 52) [- 3, 4] (mk_gmres_tag (1 / 10 ^ 10) 1 1 0) =
      Inr (BudgetExhausted, ?s)"
    unfolding solve_run_def n mr kd ls len option.case using lp by simp
  from exhausted_error_unnormalised [OF run] have "last_error (tag ?s) = \<bar>rho ?s * rho_0 ?s\<bar>"
    by blast
  with run n show ?thesis by simp
qed

section \<open>Breakdown at the first step of a pass\<close>

lemma vadd_zeros:
  assumes "length u \<le> m"
  shows "vadd u (replicate m 0) = u"
  using assms by (intro nth_equalityI) (simp_all add: vadd_def)

lemma vscale_zero: "vscale v 0 = replicate (length v) 0"
  by (simp add: vscale_def map_replicate_const)

lemma finish_cycle_zero_steps:
  assumes "0 < length (projection_rhs s2)"
  shows "\<exists>x s'. finish_cycle norm_rhs 0 s2 = Inr (x, s') \<and>
           projection_rhs s' = projection_rhs s2 \<and>
           result s' = vadd (result s2) (vscale (vscale (res s2) (projection_rhs s2 ! 0)) (rho_0 s2))"
  using assms by (simp add: finish_cycle_def reconstruct_def Let_def)

text \<open>
  C10: \<open>projection_rhs\<close> is all zeros at the entry of the restart loop, and a pass of
  the loop does not reset it.  In a pass whose inner loop breaks down at \<open>k = 0\<close>, the
  reconstruction adds \<open>res * projection_rhs[0] * rho_0\<close> to \<open>result\<close>, with
  \<open>projection_rhs[0]\<close> as the pass found it: when that is 0, as in the first pass, the
  result is unchanged; in a later pass it is what the pass before left there.  The
  witness has both: a first pass that leaves \<open>result\<close> as it was, and the second pass
  of the worked example, which takes \<open>result\<close> from \<open>(-3, 4)\<close> to \<open>(-3, 8)\<close>.
\<close>

theorem breakdown_at_first_step:
  assumes "norm_rhs \<noteq> 0" "\<not> norm_2 (residual A P rhs s) / norm_rhs < tol (tag s)"
    "norm_2 (residual A P rhs s) \<noteq> 0" "0 < kd" "kd \<le> length (R s)" "kd \<le> length (U s)"
    "0 < length (projection_rhs s)"
    "candidate A P 0 (cycle_init A P n kd rhs s) = Inr v" "householder_column n 0 v = Inr u"
    "\<bar>u ! 0\<bar> < 10 * eps"
  shows "projection_rhs (loop_state rhs0 tg) = zeros (local_krylov_dim rhs0 tg) \<and>
         (\<exists>x s'. restart_cycle A P eps n kd rhs norm_rhs s = Inr (x, s') \<and>
            projection_rhs s' = projection_rhs s \<and>
            result s' = vadd (result s)
                          (vscale (vscale (map (\<lambda>x. x / norm_2 (residual A P rhs s))
                                             (residual A P rhs s))
                                     (projection_rhs s ! 0))
                             (norm_2 (residual A P rhs s))) \<and>
            (projection_rhs s ! 0 = 0 \<and> length (result s) \<le> length (residual A P rhs s)
               \<longrightarrow> result s' = result s))"
proof -
  let ?s1 = "cycle_init A P n kd rhs s"
  let ?s2 = "?s1\<lparr>tag := (tag ?s1)\<lparr>iters_taken := iters_taken (tag ?s1) + 1\<rparr>,
                  v_k_tilde := v, U := (U ?s1)[0 := u]\<rparr>"
  have kU: "0 < length (U ?s1)" using assms(4) by (simp add: cycle_init_def Let_def)
  have lp: "krylov_loop A P eps n norm_rhs kd 0 ?s1 = Inr (0, ?s2)"
    using krylov_loop_exit [OF assms(4) krylov_step_breakdown [OF kU assms(8-10)]] by simp
  have cyc: "restart_cycle A P eps n kd rhs norm_rhs s = finish_cycle norm_rhs 0 ?s2"
    by (rule restart_cycle_enters_loop [OF assms(1,2,3,5,6) lp])
  have p2: "projection_rhs ?s2 = projection_rhs s" "result ?s2 = result s"
    "res ?s2 = map (\<lambda>x. x / norm_2 (residual A P rhs s)) (residual A P rhs s)"
    "rho_0 ?s2 = norm_2 (residual A P rhs s)"
    by (simp_all add: cycle_init_def Let_def)
  have "0 < length (projection_rhs ?s2)" using assms(7) p2 by simp
  from finish_cycle_zero_steps [OF this, of norm_rhs] obtain x s' where
    f: "finish_cycle norm_rhs 0 ?s2 = Inr (x, s')" and p: "projection_rhs s' = projection_rhs s"
    and r: "result s' = vadd (result s)
                          (vscale (vscale (map (\<lambda>x. x / norm_2 (residual A P rhs s))
                                             (residual A P rhs s))
                                     (projection_rhs s ! 0))
                             (norm_2 (residual A P rhs s)))"
    unfolding p2 by blast
  have z: "result s' = result s"
    if "projection_rhs s ! 0 = 0" "length (result s) \<le> length (residual A P rhs s)"
    using that r by (simp add: vscale_zero vadd_zeros) (simp add: vscale_def vadd_zeros)
  have "projection_rhs (loop_state rhs0 tg) = zeros (local_krylov_dim rhs0 tg)"
    by (simp add: loop_state_def init_state_def)
  then show ?thesis using cyc f p r z by auto
qed


theorem breakdown_at_first_step_witness:
  "(\<exists>x s'. restart_cycle (map (\<lambda>x. 0)) no_precond (1 / 2 ^ 52) 1 1 [1] 1
             (loop_state [1] (mk_gmres_tag (1 / 10 ^ 10) 300 20 0)) = Inr (x, s') \<and>
           result s' = [0]) \<and>
   (\<exists>x s'. restart_cycle (\<lambda>v. [v ! 0, 0]) no_precond (1 / 2 ^ 52) 2 1 [- 3, 4] 5
             \<lparr>result = [- 3, 4], res = [- 3, 4], v_k_tilde = [- (3 / 5), 0], R = [[3 / 5]],
              projection_rhs = [1], U = [[- 1, 0]], rho_0 = 5, rho = 4 / 5,
              tag = mk_gmres_tag (1 / 10 ^ 10) 300 1 0\<rparr> = Inr (x, s') \<and>
           result s' = [- 3, 8])"
proof -
  let ?Z = "map (\<lambda>x::real. 0::real)"
  let ?tg = "mk_gmres_tag (1 / 10 ^ 10) 300 20 0"
  let ?s = "loop_state [1] ?tg"
  have s: "?s = \<lparr>result = [0], res = [0], v_k_tilde = [0], R = [zeros 20], projection_rhs = [0],
      U = [[0]], rho_0 = 0, rho = 0, tag = ?tg\<lparr>iters_taken := 0\<rparr>\<rparr>"
    by (simp add: loop_state_def init_state_def local_krylov_dim_def mk_gmres_tag_def zeros_def)
  have r: "residual ?Z no_precond [1] ?s = [1]"
    unfolding s by (simp add: residual_def no_precond_def vsub_def)
  have n: "norm_2 [1] = 1" by (simp add: norm_2_def inner_prod_def)
  have a1: "(1::real) \<noteq> 0" by simp
  have tl: "tol (tag ?s) = 1 / 10 ^ 10" unfolding s by (simp add: mk_gmres_tag_def)
  have a2: "\<not> norm_2 (residual ?Z no_precond [1] ?s) / 1 < tol (tag ?s)"
    unfolding r n tl by simp
  have a3: "norm_2 (residual ?Z no_precond [1] ?s) \<noteq> 0" unfolding r n by simp
  have a4: "(0::nat) < 1" by simp
  have a5: "1 \<le> length (R ?s)" and a6: "1 \<le> length (U ?s)"
    and a7: "0 < length (projection_rhs ?s)"
    and p0: "projection_rhs ?s ! 0 = 0" and rs: "result ?s = [0]"
    unfolding s by simp_all
  have a8: "candidate ?Z no_precond 0 (cycle_init ?Z no_precond 1 1 [1] ?s) = Inr [0]"
    using r n by (simp add: candidate_def cycle_init_def Let_def no_precond_def)
  have a9: "householder_column 1 0 [0] = Inr [0]"
    by (simp add: householder_column_def inner_prod_def zeros_def)
  have a10: "\<bar>[0::real] ! 0\<bar> < 10 * (1 / 2 ^ 52)" by simp
  from breakdown_at_first_step [OF a1 a2 a3 a4 a5 a6 a7 a8 a9 a10]
  obtain x s' where c: "restart_cycle ?Z no_precond (1 / 2 ^ 52) 1 1 [1] 1 ?s = Inr (x, s')"
    and z: "projection_rhs ?s ! 0 = 0 \<and>
            length (result ?s) \<le> length (residual ?Z no_precond [1] ?s) \<longrightarrow>
            result s' = result ?s"
    by blast
  have "result s' = [0]" using z unfolding r p0 rs by simp
  with c have first: "\<exists>x s'. restart_cycle ?Z no_precond (1 / 2 ^ 52) 1 1 [1] 1 ?s = Inr (x, s') \<and>
           result s' = [0]" by blast
  let ?A = "\<lambda>v::vec. [v ! 0, 0]"
  let ?sa = "\<lparr>result = [- 3, 4], res = [- 3, 4], v_k_tilde = [- (3 / 5), 0], R = [[3 / 5]],
              projection_rhs = [1], U = [[- 1, 0]], rho_0 = 5, rho = 4 / 5,
              tag = mk_gmres_tag (1 / 10 ^ 10) 300 1 0\<rparr>"
  have r': "residual ?A no_precond [- 3, 4] ?sa = [0, 4]"
    by (simp add: residual_def no_precond_def vsub_def)
  have n': "norm_2 [0, 4] = 4" by (simp add: norm_2_def inner_prod_def sqrt_vals)
  have b1: "(5::real) \<noteq> 0" by simp
  have b2: "\<not> norm_2 (residual ?A no_precond [- 3, 4] ?sa) / 5 < tol (tag ?sa)"
    unfolding r' n' by (simp add: mk_gmres_tag_def)
  have b3: "norm_2 (residual ?A no_precond [- 3, 4] ?sa) \<noteq> 0" unfolding r' n' by simp
  have b5: "1 \<le> length (R ?sa)" and b6: "1 \<le> length (U ?sa)"
    and b7: "0 < length (projection_rhs ?sa)" by simp_all
  have b8: "candidate ?A no_precond 0 (cycle_init ?A no_precond 2 1 [- 3, 4] ?sa) = Inr [0, 0]"
    using r' n' by (simp add: candidate_def cycle_init_def Let_def no_precond_def)
  have b9: "householder_column 2 0 [0, 0] = Inr [0, 0]"
    by (simp add: householder_column_def inner_prod_def zeros_def numeral_2_eq_2)
  have b10: "\<bar>[0, 0::real] ! 0\<bar> < 10 * (1 / 2 ^ 52)" by simp
  from breakdown_at_first_step [OF b1 b2 b3 a4 b5 b6 b7 b8 b9 b10]
  obtain y sa' where d: "restart_cycle ?A no_precond (1 / 2 ^ 52) 2 1 [- 3, 4] 5 ?sa = Inr (y, sa')"
    and fm: "result sa' = vadd (result ?sa)
                          (vscale (vscale (map (\<lambda>x. x / norm_2 (residual ?A no_precond [- 3, 4] ?sa))
                                             (residual ?A no_precond [- 3, 4] ?sa))
                                     (projection_rhs ?sa ! 0))
                             (norm_2 (residual ?A no_precond [- 3, 4] ?sa)))"
    by blast
  have "result sa' = [- 3, 8]" using fm unfolding r' n' by (simp add: vadd_def vscale_def)
  with d have "\<exists>x s'. restart_cycle ?A no_precond (1 / 2 ^ 52) 2 1 [- 3, 4] 5 ?sa = Inr (x, s') \<and>
           result s' = [- 3, 8]" by blast
  with first show ?thesis by blast
qed

section \<open>No index leaves its container\<close>

lemma length_vsub [simp]: "length (vsub u v) = min (length u) (length v)"
  by (simp add: vsub_def)

lemma length_vadd [simp]: "length (vadd u v) = min (length u) (length v)"
  by (simp add: vadd_def)

lemma length_vscale [simp]: "length (vscale v c) = length v"
  by (simp add: vscale_def)

lemma length_zeros [simp]: "length (zeros n) = n"
  by (simp add: zeros_def)

lemma length_reflect [simp]: "length (reflect u v) = min (length v) (length u)"
  by (simp add: reflect_def)

lemma length_reflect_down:
  assumes "length v = n" "k \<le> length Us" "\<forall>i<k. length (Us ! i) = n"
  shows "length (reflect_down Us k v) = n"
  using assms by (induction k arbitrary: v) simp_all

lemma length_reflect_up:
  assumes "length v = n" "k \<le> length Us" "\<forall>i<k. length (Us ! i) = n"
  shows "length (reflect_up Us k v) = n"
  using assms unfolding reflect_up_def by (induction k) simp_all

lemma candidate_in_range:
  assumes lenA: "\<forall>v. length (A v) = length v" and lenP: "\<forall>v. length (P v) = length v"
    and wf: "wf_state n kd s" and k: "k < kd"
  shows "\<exists>v. candidate A P k s = Inr v \<and> length v = n"
proof (cases "k = 0")
  case True
  then show ?thesis using wf lenA lenP by (simp add: candidate_def wf_state_def)
next
  case False
  have kU: "k \<le> length (U s)" and kv: "k - 1 < length (v_k_tilde s)"
    and Us: "\<forall>i<k. length (U s ! i) = n"
    using wf k False by (auto simp: wf_state_def)
  have l0: "length ((clear (v_k_tilde s))[k - 1 := 1]) = n"
    using wf by (simp add: clear_def wf_state_def)
  have l1: "length (P (A (reflect_down (U s) k ((clear (v_k_tilde s))[k - 1 := 1])))) = n"
    using length_reflect_down [OF l0 kU Us] lenA lenP by simp
  show ?thesis
    using False kU kv length_reflect_up [OF l1 kU Us] by (simp add: candidate_def)
qed

lemma householder_column_in_range:
  assumes "length v = n" "k < n"
  shows "householder_column n k v \<noteq> Inl OutOfRange \<and>
         (\<forall>u. householder_column n k v = Inr u \<longrightarrow> length u = n)"
  using assms by (auto simp: householder_column_def Let_def)

lemma wf_state_tag [simp]: "wf_state n kd (s\<lparr>tag := t\<rparr>) = wf_state n kd s"
  by (simp add: wf_state_def)

lemma wf_state_rho [simp]: "wf_state n kd (s\<lparr>rho := x\<rparr>) = wf_state n kd s"
  by (simp add: wf_state_def)

lemma wf_state_rho_0 [simp]: "wf_state n kd (s\<lparr>rho_0 := x\<rparr>) = wf_state n kd s"
  by (simp add: wf_state_def)

lemma wf_state_U:
  assumes "wf_state n kd s" "length u = n"
  shows "wf_state n kd (s\<lparr>U := (U s)[k := u]\<rparr>)"
proof -
  have "length ((U s)[k := u] ! i) = n" if "i < kd" for i
    using assms that by (cases "i = k") (simp_all add: wf_state_def)
  then show ?thesis using assms(1) by (simp add: wf_state_def)
qed

lemma wf_state_R:
  assumes "wf_state n kd s" "length r = kd"
  shows "wf_state n kd (s\<lparr>R := (R s)[k := r]\<rparr>)"
proof -
  have "length ((R s)[k := r] ! i) = kd" if "i < kd" for i
    using assms that by (cases "i = k") (simp_all add: wf_state_def)
  then show ?thesis using assms(1) by (simp add: wf_state_def)
qed

lemma wf_state_res:
  assumes "wf_state n kd s" "length r = n"
  shows "wf_state n kd (s\<lparr>res := r\<rparr>)"
  using assms by (simp add: wf_state_def)

lemma wf_state_v_k_tilde:
  assumes "wf_state n kd s" "length v = n"
  shows "wf_state n kd (s\<lparr>v_k_tilde := v\<rparr>)"
  using assms by (simp add: wf_state_def)

lemma wf_state_projection_rhs:
  assumes "wf_state n kd s" "length p = kd"
  shows "wf_state n kd (s\<lparr>projection_rhs := p\<rparr>)"
  using assms by (simp add: wf_state_def)

lemma wf_state_result:
  assumes "wf_state n kd s" "length r = n"
  shows "wf_state n kd (s\<lparr>result := r\<rparr>)"
  using assms by (simp add: wf_state_def)

lemma make_reflector_in_range:
  assumes wf: "wf_state n kd s" and k: "k < kd" and u: "length u = n" and v: "length v = n"
  shows "make_reflector k u v s \<noteq> Inl OutOfRange \<and>
         (\<forall>s'. make_reflector k u v s = Inr s' \<longrightarrow> wf_state n kd s')"
proof -
  have kn: "k < n" and kdn: "kd \<le> n" and lRk: "length (R s ! k) = kd"
    and lR: "length (R s) = kd" and lU: "length (U s) = kd" and lres: "length (res s) = n"
    using wf k by (simp_all add: wf_state_def)
  have rng: "k < length (R s) \<and> k < length (R s ! k) \<and> k < length u \<and> k < length (U s)"
    using k kn lRk lR lU u by simp
  let ?rk = "take (k + 1) u @ drop (k + 1) (R s ! k)"
  let ?u3 = "vscale (vsub u v) (- 1 / norm_2 (vsub u v))"
  let ?s' = "s\<lparr>R := (R s)[k := ?rk], U := (U s)[k := ?u3], res := reflect ?u3 (res s)\<rparr>"
  have lr: "length ?rk = kd" using k kn u lRk by simp
  have lu: "length ?u3 = n" using u v by simp
  have lres': "length (reflect ?u3 (res s)) = n" using lu lres by simp
  have "wf_state n kd (s\<lparr>R := (R s)[k := ?rk]\<rparr>)" by (rule wf_state_R [OF wf lr])
  from wf_state_U [OF this lu, of k] have "wf_state n kd (s\<lparr>R := (R s)[k := ?rk], U := (U s)[k := ?u3]\<rparr>)"
    by simp
  from wf_state_res [OF this lres'] have wf': "wf_state n kd ?s'" by simp
  have eq: "make_reflector k u v s = (if norm_2 (vsub u v) = 0 then Inl NonFinite else Inr ?s')"
    using rng by (simp add: make_reflector_def Let_def)
  show ?thesis unfolding eq using wf' by simp
qed

lemma update_rho_in_range:
  assumes wf: "wf_state n kd s" and k: "k < kd"
  shows "update_rho k s \<noteq> Inl OutOfRange \<and>
         (\<forall>s'. update_rho k s = Inr s' \<longrightarrow> wf_state n kd s')"
proof -
  have rng: "k < length (res s) \<and> k < length (projection_rhs s)"
    using wf k by (simp add: wf_state_def)
  let ?x = "clamp_res (rho s) (res s ! k)"
  let ?s' = "s\<lparr>res := (res s)[k := ?x], projection_rhs := (projection_rhs s)[k := ?x],
               rho := rho s * sin (arccos (?x / rho s))\<rparr>"
  have "wf_state n kd (s\<lparr>res := (res s)[k := ?x]\<rparr>)"
    using wf by (intro wf_state_res) (simp_all add: wf_state_def)
  then have "wf_state n kd (s\<lparr>res := (res s)[k := ?x], projection_rhs := (projection_rhs s)[k := ?x]\<rparr>)"
    using wf_state_projection_rhs [of n kd "s\<lparr>res := (res s)[k := ?x]\<rparr>" "(projection_rhs s)[k := ?x]"]
    by (simp add: wf_state_def)
  then have wf': "wf_state n kd ?s'" by simp
  have eq: "update_rho k s =
      (if rho s = 0 then Inl NonFinite
       else if ?x / rho s < - 1 \<or> 1 < ?x / rho s then Inl NonFinite else Inr ?s')"
    using rng by (simp add: update_rho_def Let_def)
  show ?thesis unfolding eq using wf' by simp
qed

lemma krylov_step_in_range:
  assumes lenA: "\<forall>v. length (A v) = length v" and lenP: "\<forall>v. length (P v) = length v"
    and wf: "wf_state n kd s" and k: "k < kd"
  shows "krylov_step A P eps n norm_rhs k s \<noteq> Inl OutOfRange \<and>
         (\<forall>x s'. krylov_step A P eps n norm_rhs k s = Inr (x, s') \<longrightarrow> wf_state n kd s')"
proof -
  let ?s = "s\<lparr>tag := (tag s)\<lparr>iters_taken := iters_taken (tag s) + 1\<rparr>\<rparr>"
  from candidate_in_range [OF lenA lenP wf k] obtain v where
    v: "candidate A P k s = Inr v" and lv: "length v = n" by blast
  have kU: "k < length (U s)" and kn: "k < n" using wf k by (auto simp: wf_state_def)
  note hc = householder_column_in_range [OF lv kn]
  show ?thesis
  proof (cases "householder_column n k v")
    case (Inl e)
    with hc v kU show ?thesis by (simp add: krylov_step_def Let_def)
  next
    case (Inr u)
    with hc have lu: "length u = n" by simp
    let ?s1 = "?s\<lparr>v_k_tilde := v, U := (U ?s)[k := u]\<rparr>"
    have "wf_state n kd ?s" using wf by simp
    from wf_state_U [OF wf_state_v_k_tilde [OF this lv] lu, of k]
    have wf1: "wf_state n kd ?s1" by simp
    show ?thesis
    proof (cases "\<bar>u ! k\<bar> < 10 * eps")
      case True
      with v kU Inr wf1 show ?thesis by (simp add: krylov_step_def Let_def)
    next
      case False
      note mr = make_reflector_in_range [OF wf1 k lu lv]
      show ?thesis
      proof (cases "make_reflector k u v ?s1")
        case (Inl e)
        with mr v kU Inr False show ?thesis by (simp add: krylov_step_def Let_def)
      next
        case s2: (Inr s2)
        with mr have wf2: "wf_state n kd s2" by simp
        note ur = update_rho_in_range [OF wf2 k]
        show ?thesis
        proof (cases "update_rho k s2")
          case (Inl e)
          with ur v kU Inr False s2 show ?thesis by (simp add: krylov_step_def Let_def)
        next
          case s3: (Inr s3)
          with ur have "wf_state n kd s3" by simp
          with v kU Inr False s2 s3 show ?thesis by (simp add: krylov_step_def Let_def)
        qed
      qed
    qed
  qed
qed

lemma wf_state_sized: "wf_state n kd s \<Longrightarrow> sized_state n kd s"
  by (simp add: wf_state_def sized_state_def)

lemma krylov_loop_in_range:
  assumes lenA: "\<forall>v. length (A v) = length v" and lenP: "\<forall>v. length (P v) = length v"
    and wf: "wf_state n kd s" and k: "k \<le> kd"
  shows "krylov_loop A P eps n norm_rhs kd k s \<noteq> Inl OutOfRange \<and>
         (\<forall>k' s'. krylov_loop A P eps n norm_rhs kd k s = Inr (k', s') \<longrightarrow>
            wf_state n kd s' \<and> k' \<le> kd)"
  using wf k
proof (induction "kd - k" arbitrary: k s)
  case 0
  then have "k = kd" by simp
  with "0.prems" show ?case by (simp add: krylov_loop.simps)
next
  case (Suc d)
  then have lt: "k < kd" by simp
  note st = krylov_step_in_range [OF lenA lenP Suc.prems(1) lt, of eps norm_rhs]
  show ?case
  proof (cases "krylov_step A P eps n norm_rhs k s")
    case (Inl e)
    with st lt show ?thesis by (simp add: krylov_loop.simps)
  next
    case (Inr xs)
    obtain x s1 where xs: "xs = (x, s1)" by (cases xs)
    with Inr st have wf1: "wf_state n kd s1" by simp
    show ?thesis
    proof (cases x)
      case Breakdown
      with Inr xs lt wf1 show ?thesis by (simp add: krylov_loop.simps)
    next
      case Converged
      with Inr xs lt wf1 show ?thesis by (simp add: krylov_loop.simps)
    next
      case Next
      have d: "d = kd - (k + 1)" using Suc.hyps(2) by simp
      have le: "k + 1 \<le> kd" using lt by simp
      have "krylov_loop A P eps n norm_rhs kd k s = krylov_loop A P eps n norm_rhs kd (k + 1) s1"
        using Inr xs lt Next by (simp add: krylov_loop.simps)
      with Suc.hyps(1) [OF d wf1 le] show ?thesis by simp
    qed
  qed
qed

lemma back_substitution_in_range:
  assumes "k \<le> length p" "k \<le> length Rm" "\<forall>j<k. k \<le> length (Rm ! j)" "m \<le> k"
  shows "back_substitution Rm k m p \<noteq> Inl OutOfRange \<and>
         (\<forall>c. back_substitution Rm k m p = Inr c \<longrightarrow> length c = length p)"
  using assms
proof (induction m arbitrary: p)
  case 0
  then show ?case by simp
next
  case (Suc m)
  have rng: "row_in_range Rm k m p"
    using Suc.prems by (auto simp: row_in_range_def list_all_iff)
  let ?q = "back_row Rm k m p"
  let ?q' = "?q[m := ?q ! m / Rm ! m ! m]"
  have l: "length ?q' = length p" by (simp add: length_back_row)
  then have "k \<le> length ?q'" using Suc.prems(1) by simp
  from Suc.IH [OF this Suc.prems(2,3)] Suc.prems(4) l rng
  show ?case by (simp add: Let_def)
qed

lemma reconstruct_in_range:
  assumes wf: "wf_state n kd s" and k: "k \<le> kd"
  shows "\<exists>s'. reconstruct k s = Inr s' \<and> wf_state n kd s'"
proof -
  have p: "0 < length (projection_rhs s)" and kn: "k \<le> n"
    and lp: "length (projection_rhs s) = kd" and lU: "length (U s) = kd"
    and lres: "length (res s) = n" and lresult: "length (result s) = n"
    and Us: "\<forall>i<k. length (U s ! i) = n"
    using wf k by (auto simp: wf_state_def)
  let ?r1 = "vscale (res s) (projection_rhs s ! 0)"
  let ?r2 = "if k > 0 then fold (\<lambda>i r. r[i := r ! i + projection_rhs s ! (i + 1)]) [0..<k - 1] ?r1
             else ?r1"
  let ?r4 = "vscale (reflect_down (U s) k ?r2) (rho_0 s)"
  have lf: "length (fold (\<lambda>i r. r[i := g i r]) xs r) = length r"
    for xs and r :: vec and g
    by (induction xs arbitrary: r) simp_all
  have l2: "length ?r2 = n" using lres by (simp add: lf)
  have kU: "k \<le> length (U s)" using k lU by simp
  have l4: "length ?r4 = n" using length_reflect_down [OF l2 kU Us] by simp
  have chk: "k - 1 \<le> length ?r1 \<and> (k \<le> 1 \<or> k \<le> length (projection_rhs s)) \<and> k \<le> length (U s)"
    using kn k lp lU lres by auto
  have eq: "reconstruct k s = Inr (s\<lparr>res := ?r4, result := vadd (result s) ?r4\<rparr>)"
    using p chk by (simp add: reconstruct_def Let_def)
  have "wf_state n kd (s\<lparr>res := ?r4\<rparr>)" by (rule wf_state_res [OF wf l4])
  from wf_state_result [OF this, of "vadd (result s) ?r4"] l4 lresult
  have "wf_state n kd (s\<lparr>res := ?r4, result := vadd (result s) ?r4\<rparr>)" by simp
  with eq show ?thesis by simp
qed


lemma finish_cycle_in_range:
  assumes wf: "wf_state n kd s" and k: "k \<le> kd"
  shows "finish_cycle norm_rhs k s \<noteq> Inl OutOfRange \<and>
         (\<forall>x s'. finish_cycle norm_rhs k s = Inr (x, s') \<longrightarrow> wf_state n kd s')"
proof -
  have a: "k \<le> length (projection_rhs s)" "k \<le> length (R s)" "\<forall>j<k. k \<le> length (R s ! j)"
    using wf k by (auto simp: wf_state_def)
  note bs = back_substitution_in_range [OF a order_refl]
  show ?thesis
  proof (cases "back_substitution (R s) k k (projection_rhs s)")
    case (Inl e)
    with bs show ?thesis by (simp add: finish_cycle_def)
  next
    case (Inr p)
    with bs wf have "length p = kd" by (simp add: wf_state_def)
    from reconstruct_in_range [OF wf_state_projection_rhs [OF wf this] k]
    obtain s3 where "reconstruct k (s\<lparr>projection_rhs := p\<rparr>) = Inr s3" "wf_state n kd s3"
      by blast
    with Inr show ?thesis by (simp add: finish_cycle_def)
  qed
qed

lemma cycle_init_wf:
  assumes lenA: "\<forall>v. length (A v) = length v" and lenP: "\<forall>v. length (P v) = length v"
    and sz: "sized_state n kd s" and rhs: "length rhs = n"
  shows "wf_state n kd (cycle_init A P n kd rhs s)"
proof -
  have "length (residual A P rhs s) = n"
    using lenA lenP sz rhs by (simp add: residual_def sized_state_def)
  then show ?thesis
    using sz by (simp add: cycle_init_def Let_def wf_state_def sized_state_def)
qed

lemma restart_cycle_in_range:
  assumes lenA: "\<forall>v. length (A v) = length v" and lenP: "\<forall>v. length (P v) = length v"
    and sz: "sized_state n kd s" and rhs: "length rhs = n"
  shows "restart_cycle A P eps n kd rhs norm_rhs s \<noteq> Inl OutOfRange \<and>
         (\<forall>x s'. restart_cycle A P eps n kd rhs norm_rhs s = Inr (x, s') \<longrightarrow> sized_state n kd s')"
proof -
  let ?s1 = "cycle_init A P n kd rhs s"
  note wf1 = cycle_init_wf [OF lenA lenP sz rhs]
  note lp = krylov_loop_in_range [OF lenA lenP wf1 le0, of eps norm_rhs]
  have szR: "kd \<le> length (R s) \<and> kd \<le> length (U s)" using sz by (simp add: sized_state_def)
  have start: "sized_state n kd (s\<lparr>res := r, rho_0 := a, rho := 1, tag := t\<rparr>)" for r a t
    using sz by (simp add: sized_state_def)
  show ?thesis
  proof (cases "krylov_loop A P eps n norm_rhs kd 0 ?s1")
    case (Inl e)
    with lp szR start show ?thesis by (simp add: restart_cycle_def Let_def)
  next
    case (Inr ks)
    obtain k s2 where ks: "ks = (k, s2)" by (cases ks)
    with Inr lp have "wf_state n kd s2" "k \<le> kd" by simp_all
    note fc = finish_cycle_in_range [OF this, of norm_rhs]
    have fin: "sized_state n kd s'" if "finish_cycle norm_rhs k s2 = Inr (x, s')" for x s'
      using fc that wf_state_sized by blast
    show ?thesis
      using Inr ks fc fin szR start by (auto simp: restart_cycle_def Let_def)
  qed
qed

lemma restart_loop_in_range:
  assumes lenA: "\<forall>v. length (A v) = length v" and lenP: "\<forall>v. length (P v) = length v"
    and sz: "sized_state n kd s" and rhs: "length rhs = n"
  shows "restart_loop A P eps n kd rhs norm_rhs m s \<noteq> Inl OutOfRange"
  using sz
proof (induction m arbitrary: s)
  case 0
  then show ?case by simp
next
  case (Suc m)
  note rc = restart_cycle_in_range [OF lenA lenP Suc.prems rhs, of eps norm_rhs]
  show ?case
  proof (cases "restart_cycle A P eps n kd rhs norm_rhs s")
    case (Inl e)
    with rc show ?thesis by simp
  next
    case (Inr xs)
    obtain x s1 where xs: "xs = (x, s1)" by (cases xs)
    with Inr rc have "sized_state n kd s1" by simp
    from Suc.IH [OF this] Inr xs show ?thesis by (cases x) simp_all
  qed
qed

lemma krylov_loop_bound:
  assumes "krylov_loop A P eps n norm_rhs kd k s = Inr (k', s')" "k \<le> kd"
  shows "k' \<le> kd"
  using assms
proof (induction "kd - k" arbitrary: k s)
  case 0
  then show ?case by (simp add: krylov_loop.simps)
next
  case (Suc d)
  then have lt: "k < kd" by simp
  with Suc.prems(1) obtain x s1 where st: "krylov_step A P eps n norm_rhs k s = Inr (x, s1)"
    by (subst (asm) krylov_loop.simps) (auto split: sum.splits)
  show ?case
  proof (cases x)
    case Next
    have "krylov_loop A P eps n norm_rhs kd (k + 1) s1 = Inr (k', s')"
      using Suc.prems(1) krylov_loop_exit [OF lt st] Next by simp
    moreover have "d = kd - (k + 1)" "k + 1 \<le> kd" using Suc.hyps(2) lt by simp_all
    ultimately show ?thesis using Suc.hyps(1) by blast
  next
    case Breakdown
    with Suc.prems(1) krylov_loop_exit [OF lt st] lt show ?thesis by simp
  next
    case Converged
    with Suc.prems(1) krylov_loop_exit [OF lt st] lt show ?thesis by simp
  qed
qed

text \<open>
  C7: the local \<open>krylov_dim\<close> is the smaller of the tag's and \<open>problem_size\<close>, the
  inner loop ends on a \<open>k\<close> of at most \<open>problem_size\<close>, and, for an operator and a
  preconditioner that keep the dimension, no index that \<open>solve\<close> uses on \<open>U[k]\<close>,
  \<open>res\<close>, \<open>v_k_tilde\<close>, \<open>R\<close> or \<open>projection_rhs\<close> is outside its container,
  whatever \<open>krylov_dim\<close> the tag asks for.
\<close>

theorem clamped_krylov_dim_in_range:
  assumes "\<forall>v. length (A v) = length v" "\<forall>v. length (P v) = length v"
  shows "local_krylov_dim rhs tg = min (unat (krylov_dim tg)) (length rhs) \<and>
         solve A P eps rhs tg \<noteq> Inl OutOfRange \<and>
         (\<forall>norm_rhs s k' s'.
            krylov_loop A P eps (length rhs) norm_rhs (local_krylov_dim rhs tg) 0 s = Inr (k', s')
            \<longrightarrow> k' \<le> length rhs)"
proof -
  have kd: "local_krylov_dim rhs tg = min (unat (krylov_dim tg)) (length rhs)"
    by (simp add: local_krylov_dim_def min_def)
  have bound: "k' \<le> length rhs"
    if "krylov_loop A P eps (length rhs) norm_rhs (local_krylov_dim rhs tg) 0 s = Inr (k', s')"
    for norm_rhs s k' s'
    using krylov_loop_bound [OF that] kd by simp
  have run: "solve_run A P eps rhs tg \<noteq> Inl OutOfRange"
  proof (cases "norm_2 rhs = 0")
    case True
    then show ?thesis by (simp add: solve_run_def)
  next
    case nz: False
    show ?thesis
    proof (cases "max_restarts tg")
      case None
      with nz show ?thesis by (simp add: solve_run_def)
    next
      case (Some mr)
      have "krylov_dim tg \<noteq> 0" using Some by (auto simp: max_restarts_def split: if_splits)
      then have k0: "0 < unat (krylov_dim tg)" by (simp add: unat_gt_0)
      have "rhs \<noteq> []" using nz by (auto simp: norm_2_def inner_prod_def)
      then have n0: "0 < length rhs" by simp
      have "sized_state (length rhs) (local_krylov_dim rhs tg) (loop_state rhs tg)"
        using k0 n0 by (simp add: sized_state_def loop_state_def init_state_def kd)
      from restart_loop_in_range [OF assms this refl]
      show ?thesis using nz Some by (simp add: solve_run_def del: restart_loop.simps)
    qed
  qed
  have "solve A P eps rhs tg \<noteq> Inl OutOfRange"
    using run by (auto simp: solve_def split: sum.splits)
  with kd bound show ?thesis by blast
qed

theorem clamped_krylov_dim_in_range_witness:
  "local_krylov_dim [- 3, 4, 12] (mk_gmres_tag (1 / 10 ^ 10) 300 100 0) = 3 \<and>
   solve (\<lambda>v. v) no_precond (1 / 2 ^ 52) [- 3, 4, 12] (mk_gmres_tag (1 / 10 ^ 10) 300 100 0)
     \<noteq> Inl OutOfRange"
proof -
  have a: "\<forall>v::vec. length ((\<lambda>v. v) v) = length v" by simp
  have p: "\<forall>v. length (no_precond v) = length v" by (simp add: no_precond_def)
  from clamped_krylov_dim_in_range [OF a p, of "[- 3, 4, 12]" "mk_gmres_tag (1 / 10 ^ 10) 300 100 0" "1 / 2 ^ 52"]
  show ?thesis by (simp add: mk_gmres_tag_def)
qed

section \<open>The identity operator on a right-hand side along the first unit vector\<close>

text \<open>
  The identity operator, the identity preconditioner, \<open>rhs = (2, 0)\<close> and the default
  tag.  Every value below is exact in binary floating point as well.  The first pass
  starts with \<open>rho_0 = 2\<close>, \<open>res = (1, 0)\<close>, \<open>rho = 1\<close>.  At step 0 the candidate
  is \<open>(1, 0)\<close>, and \<open>U[0]\<close>, built from it, is \<open>(1, 0)\<close> too; so
  \<open>U[0] -= v_k_tilde\<close> leaves the zero vector and \<open>-1 / norm_2(U[0])\<close> divides by
  zero.
\<close>

lemma restart_loop_Inl:
  assumes "restart_cycle A P eps n kd rhs norm_rhs s = Inl e"
  shows "restart_loop A P eps n kd rhs norm_rhs (Suc m) s = Inl e"
  using assms by simp

lemma unit_rhs_norm: "norm_2 [2, 0] = 2"
  by (simp add: norm_2_def inner_prod_def)

lemma unit_rhs_loop_state:
  "loop_state [2, 0] (mk_gmres_tag (1 / 10 ^ 10) 300 20 0) =
     \<lparr>result = [0, 0], res = [0, 0], v_k_tilde = [0, 0], R = [zeros 20, zeros 20],
      projection_rhs = [0, 0], U = [[0, 0], [0, 0]], rho_0 = 0, rho = 0,
      tag = (mk_gmres_tag (1 / 10 ^ 10) 300 20 0)\<lparr>iters_taken := 0\<rparr>\<rparr>"
proof -
  have kd: "local_krylov_dim [2, 0] (mk_gmres_tag (1 / 10 ^ 10) 300 20 0) = 2"
    by (simp add: local_krylov_dim_def mk_gmres_tag_def)
  have len: "length [2, 0 :: real] = 2" by simp
  have rep2: "replicate 2 x = [x, x]" for x :: 'a by (simp add: numeral_2_eq_2)
  show ?thesis
    unfolding loop_state_def init_state_def kd len
    by (simp add: rep2 zeros_def mk_gmres_tag_def)
qed

lemma unit_rhs_cycle_init:
  "cycle_init (\<lambda>v. v) no_precond 2 2 [2, 0]
     \<lparr>result = [0, 0], res = r, v_k_tilde = w, R = [r0, r1], projection_rhs = [0, 0],
      U = [u0, u1], rho_0 = a, rho = b, tag = t\<rparr> =
   \<lparr>result = [0, 0], res = [1, 0], v_k_tilde = w, R = [[0, 0], [0, 0]],
    projection_rhs = [0, 0], U = [[0, 0], [0, 0]], rho_0 = 2, rho = 1, tag = t\<rparr>"
proof -
  have r: "residual (\<lambda>v. v) no_precond [2, 0]
      \<lparr>result = [0, 0], res = r, v_k_tilde = w, R = [r0, r1], projection_rhs = [0, 0],
       U = [u0, u1], rho_0 = a, rho = b, tag = t\<rparr> = [2, 0]"
    by (simp add: residual_def no_precond_def vsub_def)
  show ?thesis
    by (simp add: cycle_init_def r unit_rhs_norm zeros_def numeral_2_eq_2)
qed

lemma unit_rhs_step:
  "krylov_step (\<lambda>v. v) no_precond (1 / 2 ^ 52) 2 2 0
     \<lparr>result = [0, 0], res = [1, 0], v_k_tilde = w, R = [[0, 0], [0, 0]],
      projection_rhs = [0, 0], U = [[0, 0], [0, 0]], rho_0 = 2, rho = 1, tag = t\<rparr> =
   Inl NonFinite"
  by (simp add: step_defs numeral_2_eq_2)

lemma unit_rhs_cycle:
  assumes "tol t = 1 / 10 ^ 10"
  shows "restart_cycle (\<lambda>v. v) no_precond (1 / 2 ^ 52) 2 2 [2, 0] 2
     \<lparr>result = [0, 0], res = r, v_k_tilde = w, R = [r0, r1], projection_rhs = [0, 0],
      U = [u0, u1], rho_0 = a, rho = b, tag = t\<rparr> = Inl NonFinite"
proof -
  let ?A = "\<lambda>v::vec. v"
  let ?s1 = "\<lparr>result = [0, 0], res = [1, 0], v_k_tilde = w, R = [[0, 0], [0, 0]],
      projection_rhs = [0, 0], U = [[0, 0], [0, 0]], rho_0 = 2, rho = 1,
      tag = t\<rparr>"
  have r: "residual ?A no_precond [2, 0]
      \<lparr>result = [0, 0], res = r, v_k_tilde = w, R = [r0, r1], projection_rhs = [0, 0],
       U = [u0, u1], rho_0 = a, rho = b, tag = t\<rparr> = [2, 0]"
    by (simp add: residual_def no_precond_def vsub_def)
  have lp: "krylov_loop ?A no_precond (1 / 2 ^ 52) 2 2 2 0 ?s1 = Inl NonFinite"
    using unit_rhs_step [of w t] by (simp add: krylov_loop.simps)
  show ?thesis
    unfolding restart_cycle_def Let_def r unit_rhs_norm unit_rhs_cycle_init lp using assms by simp
qed

text \<open>
  C6 at this input: \<open>rho\<close> is 1 at the entry of step 0 of the first pass, and the step
  divides by the norm of the zero vector, so what it computes is not finite.  In the code
  \<open>U[0]\<close>, \<open>res\<close>, \<open>projection_rhs[0]\<close> and \<open>rho\<close> are then NaN: neither
  comparison of the clamp holds of \<open>res[0]\<close>, the step runs to its end, and the
  \<open>rho\<close> it leaves is not in \<open>[0, 1]\<close>.
\<close>

theorem rho_not_finite_at_unit_rhs:
  "rho (cycle_init (\<lambda>v. v) no_precond 2 2 [2, 0]
          (loop_state [2, 0] (mk_gmres_tag (1 / 10 ^ 10) 300 20 0))) = 1 \<and>
   candidate (\<lambda>v. v) no_precond 0
     (cycle_init (\<lambda>v. v) no_precond 2 2 [2, 0]
        (loop_state [2, 0] (mk_gmres_tag (1 / 10 ^ 10) 300 20 0))) = Inr [1, 0] \<and>
   householder_column 2 0 [1, 0] = Inr [1, 0] \<and>
   \<not> \<bar>[1, 0 :: real] ! 0\<bar> < 10 * (1 / 2 ^ 52) \<and>
   norm_2 (vsub [1, 0] [1, 0]) = 0 \<and>
   krylov_step (\<lambda>v. v) no_precond (1 / 2 ^ 52) 2 2 0
     (cycle_init (\<lambda>v. v) no_precond 2 2 [2, 0]
        (loop_state [2, 0] (mk_gmres_tag (1 / 10 ^ 10) 300 20 0))) = Inl NonFinite"
  unfolding unit_rhs_loop_state unit_rhs_cycle_init
  by (simp add: step_defs numeral_2_eq_2)

text \<open>
  C1 at this input: the identity operator, a nonzero right-hand side and a positive
  tolerance, and \<open>solve\<close> does not return \<open>(2, 0)\<close>: the first step of the first pass
  is not finite.  In the code every entry of the vector returned is NaN.
\<close>

theorem solve_identity_unit_rhs_not_finite:
  "norm_2 [2, 0] \<noteq> 0 \<and> 0 < tol (mk_gmres_tag (1 / 10 ^ 10) 300 20 0) \<and>
   solve (\<lambda>v. v) no_precond (1 / 2 ^ 52) [2, 0] (mk_gmres_tag (1 / 10 ^ 10) 300 20 0) =
     Inl NonFinite"
proof -
  let ?tg = "mk_gmres_tag (1 / 10 ^ 10) 300 20 0"
  have kd: "local_krylov_dim [2, 0] ?tg = 2" by (simp add: local_krylov_dim_def mk_gmres_tag_def)
  have mr: "max_restarts ?tg = Some 14" by (simp add: max_restarts_def mk_gmres_tag_def)
  have len: "length [2, 0 :: real] = 2" by simp
  have "restart_loop (\<lambda>v. v) no_precond (1 / 2 ^ 52) 2 2 [2, 0] 2 (Suc (unat (14 :: 32 word)))
          (loop_state [2, 0] ?tg) = Inl NonFinite"
    unfolding unit_rhs_loop_state
    by (rule restart_loop_Inl [OF unit_rhs_cycle]) (simp add: mk_gmres_tag_def)
  then have "solve (\<lambda>v. v) no_precond (1 / 2 ^ 52) [2, 0] ?tg = Inl NonFinite"
    unfolding solve_def solve_run_def unit_rhs_norm mr kd len by simp
  then show ?thesis by (simp add: unit_rhs_norm mk_gmres_tag_def)
qed

end
